theory Spec2Isabelle
  imports Complex_Main "HOL-Library.AList"
begin

section \<open>The XGLUE fine-tuning driver: sampler, result averaging, argument checks\<close>

text \<open>
  This theory embeds three parts of \<^verbatim>\<open>run_xglue_ft.py\<close>: the multi-task generator
  \<^verbatim>\<open>merge_dataset\<close>, the result averaging \<^verbatim>\<open>average_dic\<close> and the checks at the start
  of \<^verbatim>\<open>main\<close>. Every exception the modelled code can raise is a value of type \<open>error\<close>.

  The numbers the code computes with are Python floats, that is IEEE 754 binary64. Each
  computation on floats is embedded twice. The definitions whose names end in
  \<open>_double\<close> follow the interpreter: every operation rounds its exact result to the
  nearest double, overflows to an infinity and underflows to zero, and raises where
  CPython raises. The definitions that carry the plain names of the source are the same
  code read over the real numbers, with the rounding left out; they are the frame of the
  statements made over exact arithmetic, and they agree with the code wherever no float
  value matters (which iterator is advanced, which keys a dictionary has, how often a loop
  runs at least and at most).
\<close>

subsection \<open>Exceptions\<close>

datatype error =
    ZeroDivisionError
  | IndexError
  | RuntimeError
  | KeyError string
  | AssertionError
  | ValueError string
  | FileNotFoundError
  | NotADirectoryError
  | OverflowError

subsection \<open>Python primitives\<close>

text \<open>
  A list comprehension evaluates its element expression left to right and stops at the
  first exception; over an empty list nothing is evaluated.
\<close>

fun map_result :: "('a \<Rightarrow> error + 'b) \<Rightarrow> 'a list \<Rightarrow> error + 'b list" where
  "map_result f [] = Inr []"
| "map_result f (x # xs) =
     (case f x of
        Inl e \<Rightarrow> Inl e
      | Inr y \<Rightarrow> (case map_result f xs of Inl e \<Rightarrow> Inl e | Inr ys \<Rightarrow> Inr (y # ys)))"

text \<open>
  List subscript \<^verbatim>\<open>xs[i]\<close> on a list of length \<open>n\<close>: a negative index counts from
  the end, an index out of range raises. The result is the position read.
\<close>

definition py_index :: "nat \<Rightarrow> int \<Rightarrow> nat option" where
  "py_index n i =
     (if 0 \<le> i \<and> i < int n then Some (nat i)
      else if - int n \<le> i \<and> i < 0 then Some (nat (int n + i))
      else None)"

subsection \<open>Python floats in double precision\<close>

text \<open>
  A float is a finite number, an infinity or a NaN. \<open>Finite x\<close> carries the real value;
  the two zeros are one value, as nothing in the code modelled here tells them apart
  (\<^verbatim>\<open>r >= 0\<close> holds of both, and division by either raises).
\<close>

datatype double = Finite real | PosInf | NegInf | NaN

text \<open>Rounding to the nearest integer, a tie going to the even one.\<close>

definition rne :: "real \<Rightarrow> int" where
  "rne x =
     (let f = \<lfloor>x\<rfloor>; d = x - of_int f
      in if d < 1 / 2 then f else if 1 / 2 < d then f + 1 else if even f then f else f + 1)"

text \<open>
  The binary exponent of a non-zero number: the \<open>e\<close> with \<open>2\<^sup>e \<le> \<bar>x\<bar> < 2\<^bsup>e+1\<^esup>\<close>, kept
  within \<open>-1022 \<dots> 1024\<close>. Below \<open>2\<^bsup>-1022\<^esup>\<close> lie the subnormal numbers, which share the
  exponent \<open>-1022\<close>.
\<close>

fun find_exp :: "nat \<Rightarrow> real \<Rightarrow> int" where
  "find_exp 0 x = - 1022"
| "find_exp (Suc n) x =
     (if 2 powi (int (Suc n) - 1022) \<le> x then int (Suc n) - 1022 else find_exp n x)"

definition expo :: "real \<Rightarrow> int" where
  "expo x = find_exp 2046 \<bar>x\<bar>"

text \<open>
  The double nearest to a real number (round to nearest, ties to even): the significand
  has 53 bits, so the doubles with exponent \<open>e\<close> are the multiples of \<open>2\<^bsup>e-52\<^esup>\<close>; a result
  of magnitude \<open>2\<^bsup>1024\<^esup>\<close> or more is an infinity, and a number below half the least
  subnormal \<open>2\<^bsup>-1074\<^esup>\<close> rounds to zero.
\<close>

definition rnd :: "real \<Rightarrow> double" where
  "rnd x =
     (if x = 0 then Finite 0
      else
        let q = 2 powi (expo x - 52); y = of_int (rne (x / q)) * q
        in if 2 powi 1024 \<le> \<bar>y\<bar> then (if 0 < x then PosInf else NegInf) else Finite y)"

text \<open>Negation, \<^verbatim>\<open>a + b\<close> and \<^verbatim>\<open>a - b\<close>, which never raise.\<close>

fun fneg :: "double \<Rightarrow> double" where
  "fneg (Finite x) = Finite (- x)"
| "fneg PosInf = NegInf"
| "fneg NegInf = PosInf"
| "fneg NaN = NaN"

fun fadd :: "double \<Rightarrow> double \<Rightarrow> double" where
  "fadd (Finite x) (Finite y) = rnd (x + y)"
| "fadd NaN b = NaN"
| "fadd a NaN = NaN"
| "fadd PosInf NegInf = NaN"
| "fadd NegInf PosInf = NaN"
| "fadd PosInf b = PosInf"
| "fadd a PosInf = PosInf"
| "fadd NegInf b = NegInf"
| "fadd a NegInf = NegInf"

definition fsub :: "double \<Rightarrow> double \<Rightarrow> double" where
  "fsub a b = fadd a (fneg b)"

text \<open>
  Float division \<^verbatim>\<open>a / b\<close>: CPython raises \<^verbatim>\<open>ZeroDivisionError\<close> when the divisor
  is zero, whatever the dividend, and divides as IEEE 754 does otherwise.
\<close>

definition fdiv :: "double \<Rightarrow> double \<Rightarrow> error + double" where
  "fdiv a b =
     (case b of
        Finite y \<Rightarrow>
          if y = 0 then Inl ZeroDivisionError
          else Inr (case a of
                      Finite x \<Rightarrow> rnd (x / y)
                    | PosInf \<Rightarrow> (if 0 < y then PosInf else NegInf)
                    | NegInf \<Rightarrow> (if 0 < y then NegInf else PosInf)
                    | NaN \<Rightarrow> NaN)
      | NaN \<Rightarrow> Inr NaN
      | _ \<Rightarrow> Inr (case a of Finite x \<Rightarrow> Finite 0 | _ \<Rightarrow> NaN))"

text \<open>The comparison \<^verbatim>\<open>r >= 0\<close>, which is false of a NaN.\<close>

fun fge0 :: "double \<Rightarrow> bool" where
  "fge0 (Finite x) = (0 \<le> x)"
| "fge0 PosInf = True"
| "fge0 NegInf = False"
| "fge0 NaN = False"

text \<open>
  The conversion of an \<^verbatim>\<open>int\<close> to a float, by \<^verbatim>\<open>float(n)\<close> or as the operand of a
  float operation: the nearest double, and \<^verbatim>\<open>OverflowError\<close> when the integer is too
  large for one.
\<close>

definition float_of_nat :: "nat \<Rightarrow> error + double" where
  "float_of_nat n = (case rnd (real n) of Finite y \<Rightarrow> Inr (Finite y) | _ \<Rightarrow> Inl OverflowError)"

text \<open>
  Float power \<^verbatim>\<open>x ** y\<close> for a finite exponent \<open>y\<close>, after \<^verbatim>\<open>float_pow\<close> of CPython:
  anything to the power zero is \<^verbatim>\<open>1.0\<close>, zero to a negative power raises
  \<^verbatim>\<open>ZeroDivisionError\<close>, one to any power is \<^verbatim>\<open>1.0\<close>, and every other finite base
  goes to \<^verbatim>\<open>pow\<close> of the C library, whose overflow CPython turns into
  \<^verbatim>\<open>OverflowError\<close> and whose underflow it returns as it is. The bases here are
  quotients of lengths, never negative. The C library is the parameter \<open>pow\<close>;
  \<open>libm_pow\<close> is a correctly rounded one.
\<close>

definition libm_pow :: "real \<Rightarrow> real \<Rightarrow> error + double" where
  "libm_pow x y = (case rnd (x powr y) of Finite z \<Rightarrow> Inr (Finite z) | _ \<Rightarrow> Inl OverflowError)"

definition py_pow_double ::
  "(real \<Rightarrow> real \<Rightarrow> error + double) \<Rightarrow> double \<Rightarrow> real \<Rightarrow> error + double" where
  "py_pow_double pow a y =
     (if y = 0 then Inr (Finite 1)
      else case a of
             Finite x \<Rightarrow>
               if x = 0 then (if y < 0 then Inl ZeroDivisionError else Inr (Finite 0))
               else if x = 1 then Inr (Finite 1)
               else pow x y
           | PosInf \<Rightarrow> Inr (if 0 < y then PosInf else Finite 0)
           | NegInf \<Rightarrow>
               Inr (if y < 0 then Finite 0
                    else if y = of_int \<lfloor>y\<rfloor> \<and> odd \<lfloor>y\<rfloor> then NegInf else PosInf)
           | NaN \<Rightarrow> Inr NaN)"

text \<open>
  \<^verbatim>\<open>sum\<close> over a list of floats adds from left to right, starting from \<^verbatim>\<open>0\<close> (the
  interpreters this script was written for do not compensate the sum).
\<close>

definition sum_double :: "double list \<Rightarrow> double" where
  "sum_double ps = foldl fadd (Finite 0) ps"

subsection \<open>The float operations over the reals\<close>

text \<open>
  Division and power with the rounding left out: \<^verbatim>\<open>a / b\<close> raises on a zero divisor
  and is the exact quotient otherwise; \<^verbatim>\<open>x ** y\<close> for a base \<open>x \<ge> 0\<close> is the exact
  power, with \<^verbatim>\<open>0.0 ** 0.0 = 1.0\<close>, zero to a negative power raising and zero to a
  positive power zero. Nothing overflows or underflows in this reading.
\<close>

definition py_truediv :: "real \<Rightarrow> real \<Rightarrow> error + real" where
  "py_truediv a b = (if b = 0 then Inl ZeroDivisionError else Inr (a / b))"

definition py_pow :: "real \<Rightarrow> real \<Rightarrow> error + real" where
  "py_pow x y =
     (if x = 0 then (if y = 0 then Inr 1 else if y < 0 then Inl ZeroDivisionError else Inr 0)
      else Inr (x powr y))"

subsection \<open>\<^verbatim>\<open>merge_dataset\<close>: the probability vector\<close>

text \<open>
  \<^verbatim>\<open>
  probs = [float(item)/sum(dataset_size) for item in dataset_size]
  probs = [item**task_ratio for item in probs]
  probs = [float(item)/sum(probs) for item in probs]
  \<close>
  The sizes are lengths, hence natural numbers, and their sum is an \<^verbatim>\<open>int\<close>, which the
  division converts to a float. In the third line \<^verbatim>\<open>float(item)\<close> is the float
  \<^verbatim>\<open>item\<close> itself.
\<close>

definition merge_probs_double ::
  "(real \<Rightarrow> real \<Rightarrow> error + double) \<Rightarrow> nat list \<Rightarrow> real \<Rightarrow> error + double list" where
  "merge_probs_double pow dataset_size task_ratio =
     (case map_result
             (\<lambda>item. case float_of_nat item of
                        Inl e \<Rightarrow> Inl e
                      | Inr a \<Rightarrow>
                          (case float_of_nat (sum_list dataset_size) of
                             Inl e \<Rightarrow> Inl e
                           | Inr s \<Rightarrow> fdiv a s))
             dataset_size of
        Inl e \<Rightarrow> Inl e
      | Inr probs1 \<Rightarrow>
          (case map_result (\<lambda>item. py_pow_double pow item task_ratio) probs1 of
             Inl e \<Rightarrow> Inl e
           | Inr probs2 \<Rightarrow> map_result (\<lambda>item. fdiv item (sum_double probs2)) probs2))"

text \<open>The same three lines over the reals.\<close>

definition merge_probs :: "nat list \<Rightarrow> real \<Rightarrow> error + real list" where
  "merge_probs dataset_size task_ratio =
     (case map_result (\<lambda>item. py_truediv (real item) (real (sum_list dataset_size))) dataset_size of
        Inl e \<Rightarrow> Inl e
      | Inr probs1 \<Rightarrow>
          (case map_result (\<lambda>item. py_pow item task_ratio) probs1 of
             Inl e \<Rightarrow> Inl e
           | Inr probs2 \<Rightarrow> map_result (\<lambda>item. py_truediv item (sum_list probs2)) probs2))"

text \<open>
  The contract of the specification: \<open>p\<^sub>i = (s\<^sub>i / \<Sigma>s)\<^sup>r\<close>, renormalised to sum to one.
\<close>

definition spec_weights :: "nat list \<Rightarrow> real \<Rightarrow> real list" where
  "spec_weights ss r = map (\<lambda>s. (real s / real (sum_list ss)) powr r) ss"

definition spec_probs :: "nat list \<Rightarrow> real \<Rightarrow> real list" where
  "spec_probs ss r = map (\<lambda>w. w / sum_list (spec_weights ss r)) (spec_weights ss r)"

subsection \<open>\<^verbatim>\<open>merge_dataset\<close>: selecting a task\<close>

text \<open>
  \<^verbatim>\<open>
  r = random.random()
  i = 0
  while(r >= 0 and i < len(probs)):
      r -= probs[i]
      i += 1
  i -= 1
  \<close>
  \<open>scan_loop_double\<close> is the \<^verbatim>\<open>while\<close> loop and returns the final \<open>i\<close>;
  \<open>select_task_double\<close> starts it on the draw \<open>u\<close>, a finite double, and adds the
  decrement. The index is an integer: it is \<open>-1\<close> when the loop body never runs. Each
  \<^verbatim>\<open>r -= probs[i]\<close> rounds.
\<close>

function scan_loop_double :: "double list \<Rightarrow> double \<Rightarrow> nat \<Rightarrow> nat" where
  "scan_loop_double probs r i =
     (if fge0 r \<and> i < length probs then scan_loop_double probs (fsub r (probs ! i)) (i + 1)
      else i)"
  by pat_completeness auto
termination
  by (relation "measure (\<lambda>(probs, r, i). length probs - i)") auto

declare scan_loop_double.simps [simp del]

definition select_task_double :: "double list \<Rightarrow> real \<Rightarrow> int" where
  "select_task_double probs u = int (scan_loop_double probs (Finite u) 0) - 1"

text \<open>The same loop over the reals, every subtraction exact.\<close>

function scan_loop :: "real list \<Rightarrow> real \<Rightarrow> nat \<Rightarrow> nat" where
  "scan_loop probs r i =
     (if 0 \<le> r \<and> i < length probs then scan_loop probs (r - probs ! i) (i + 1) else i)"
  by pat_completeness auto
termination
  by (relation "measure (\<lambda>(probs, r, i). length probs - i)") auto

declare scan_loop.simps [simp del]

definition select_task :: "real list \<Rightarrow> real \<Rightarrow> int" where
  "select_task probs u = int (scan_loop probs u 0) - 1"

subsection \<open>\<^verbatim>\<open>merge_dataset\<close>: the generator\<close>

text \<open>
  A dataset is the list of its items in iteration order, and an iterator over it is the
  list of the items it has still to produce. \<^verbatim>\<open>next\<close> on an empty iterator raises
  \<^verbatim>\<open>StopIteration\<close>, which the handler answers by restarting the iterator:
  \<^verbatim>\<open>
      item = next(iterators[i])
  except StopIteration:
      iterators[i] = iter(dataset_list[i])
      item = next(iterators[i])
  \<close>
  A \<^verbatim>\<open>StopIteration\<close> that leaves the handler ends the generator with an error
  (\<^verbatim>\<open>RuntimeError\<close>); an \<^verbatim>\<open>IndexError\<close> is not caught at all. The list
  \<^verbatim>\<open>iterators\<close> has the length of \<^verbatim>\<open>dataset_list\<close> throughout, so both subscripts
  read the same position.
\<close>

definition next_item :: "'a list list \<Rightarrow> 'a list list \<Rightarrow> int \<Rightarrow> error + ('a \<times> 'a list list)" where
  "next_item dataset_list iterators i =
     (case py_index (length iterators) i of
        None \<Rightarrow> Inl IndexError
      | Some j \<Rightarrow>
          (case iterators ! j of
             item # rest \<Rightarrow> Inr (item, iterators[j := rest])
           | [] \<Rightarrow>
               (case dataset_list ! j of
                  item # rest \<Rightarrow> Inr (item, iterators[j := rest])
                | [] \<Rightarrow> Inl RuntimeError)))"

text \<open>One round of the \<^verbatim>\<open>while True\<close> loop, for the draw \<open>u\<close> of \<^verbatim>\<open>random.random()\<close>.\<close>

definition merge_step_double ::
  "double list \<Rightarrow> 'a list list \<Rightarrow> 'a list list \<Rightarrow> real \<Rightarrow> error + ((int \<times> 'a) \<times> 'a list list)" where
  "merge_step_double probs dataset_list iterators u =
     (let i = select_task_double probs u in
      case next_item dataset_list iterators i of
        Inl e \<Rightarrow> Inl e
      | Inr (item, iterators') \<Rightarrow> Inr ((i, item), iterators'))"

definition merge_step ::
  "real list \<Rightarrow> 'a list list \<Rightarrow> 'a list list \<Rightarrow> real \<Rightarrow> error + ((int \<times> 'a) \<times> 'a list list)" where
  "merge_step probs dataset_list iterators u =
     (let i = select_task probs u in
      case next_item dataset_list iterators i of
        Inl e \<Rightarrow> Inl e
      | Inr (item, iterators') \<Rightarrow> Inr ((i, item), iterators'))"

text \<open>
  The loop never ends by itself, so it is driven by the draws: one round per draw. The
  result is the list of pairs yielded and the exception that ended the generator, if any.
\<close>

fun merge_loop_double ::
  "double list \<Rightarrow> 'a list list \<Rightarrow> 'a list list \<Rightarrow> real list \<Rightarrow> (int \<times> 'a) list \<times> error option" where
  "merge_loop_double probs dataset_list iterators [] = ([], None)"
| "merge_loop_double probs dataset_list iterators (u # us) =
     (case merge_step_double probs dataset_list iterators u of
        Inl e \<Rightarrow> ([], Some e)
      | Inr (y, iterators') \<Rightarrow>
          (case merge_loop_double probs dataset_list iterators' us of (ys, r) \<Rightarrow> (y # ys, r)))"

fun merge_loop ::
  "real list \<Rightarrow> 'a list list \<Rightarrow> 'a list list \<Rightarrow> real list \<Rightarrow> (int \<times> 'a) list \<times> error option" where
  "merge_loop probs dataset_list iterators [] = ([], None)"
| "merge_loop probs dataset_list iterators (u # us) =
     (case merge_step probs dataset_list iterators u of
        Inl e \<Rightarrow> ([], Some e)
      | Inr (y, iterators') \<Rightarrow>
          (case merge_loop probs dataset_list iterators' us of (ys, r) \<Rightarrow> (y # ys, r)))"

text \<open>
  What a consumer sees who asks the generator for one pair per element of \<open>us\<close>, when
  \<^verbatim>\<open>random.random()\<close> returns these values in turn. A generator runs nothing before
  the first request; the first request computes the probability vector, and an exception
  raised there ends the generator before it yields a pair.
\<close>

definition merge_dataset_double ::
  "(real \<Rightarrow> real \<Rightarrow> error + double) \<Rightarrow> 'a list list \<Rightarrow> nat list \<Rightarrow> real \<Rightarrow> real list
     \<Rightarrow> (int \<times> 'a) list \<times> error option" where
  "merge_dataset_double pow dataset_list dataset_size task_ratio us =
     (if us = [] then ([], None)
      else case merge_probs_double pow dataset_size task_ratio of
             Inl e \<Rightarrow> ([], Some e)
           | Inr probs \<Rightarrow> merge_loop_double probs dataset_list dataset_list us)"

definition merge_dataset ::
  "'a list list \<Rightarrow> nat list \<Rightarrow> real \<Rightarrow> real list \<Rightarrow> (int \<times> 'a) list \<times> error option" where
  "merge_dataset dataset_list dataset_size task_ratio us =
     (if us = [] then ([], None)
      else case merge_probs dataset_size task_ratio of
             Inl e \<Rightarrow> ([], Some e)
           | Inr probs \<Rightarrow> merge_loop probs dataset_list dataset_list us)"

text \<open>The items yielded for task \<open>i\<close>, in the order they are yielded.\<close>

definition task_items :: "nat \<Rightarrow> (int \<times> 'a) list \<Rightarrow> 'a list" where
  "task_items i ys = map snd (filter (\<lambda>y. fst y = int i) ys)"

subsection \<open>\<^verbatim>\<open>average_dic\<close>\<close>

text \<open>
  A dictionary is the list of its entries in insertion order; \<open>AList.update\<close> is the
  subscript assignment (an existing key keeps its place, a new key goes last). The
  dictionaries are objects: the heap is the list of all dictionaries, an object reference
  is a position in it, and \<^verbatim>\<open>{}\<close> allocates at the end. The values are floats, which
  are immutable, so \<^verbatim>\<open>+=\<close> and \<^verbatim>\<open>/=\<close> on an entry store a new value in \<^verbatim>\<open>dic_sum\<close>.
  The function takes the heap and the references of the input dictionaries, and returns
  the reference of its result with the heap it leaves.
\<close>

type_synonym ddict = "(string \<times> double) list"
type_synonym dheap = "ddict list"

text \<open>\<^verbatim>\<open>v / len(dic_list)\<close>: the length is an \<^verbatim>\<open>int\<close>, converted for the division.\<close>

definition py_truediv_len :: "double \<Rightarrow> nat \<Rightarrow> error + double" where
  "py_truediv_len v n = (case float_of_nat n of Inl e \<Rightarrow> Inl e | Inr b \<Rightarrow> fdiv v b)"

text \<open>\<^verbatim>\<open>for key, value in dic.items(): dic_sum[key] = value\<close>\<close>

fun store_items_double :: "nat \<Rightarrow> (string \<times> double) list \<Rightarrow> dheap \<Rightarrow> dheap" where
  "store_items_double dic_sum [] h = h"
| "store_items_double dic_sum ((key, val) # kvs) h =
     store_items_double dic_sum kvs (h[dic_sum := AList.update key val (h ! dic_sum)])"

text \<open>\<^verbatim>\<open>for key, value in dic.items(): dic_sum[key] += value\<close>\<close>

fun add_items_double :: "nat \<Rightarrow> (string \<times> double) list \<Rightarrow> dheap \<Rightarrow> error + dheap" where
  "add_items_double dic_sum [] h = Inr h"
| "add_items_double dic_sum ((key, val) # kvs) h =
     (case map_of (h ! dic_sum) key of
        None \<Rightarrow> Inl (KeyError key)
      | Some old \<Rightarrow>
          add_items_double dic_sum kvs
            (h[dic_sum := AList.update key (fadd old val) (h ! dic_sum)]))"

text \<open>
  \<^verbatim>\<open>
  for dic in dic_list:
      if len(dic_sum) == 0:
          for key, value in dic.items():
              dic_sum[key] = value
      else:
          assert set(dic_sum.keys()) == set(dic.keys()), ...
          for key, value in dic.items():
              dic_sum[key] += value
  \<close>
\<close>

fun sum_loop_double :: "nat \<Rightarrow> nat list \<Rightarrow> dheap \<Rightarrow> error + dheap" where
  "sum_loop_double dic_sum [] h = Inr h"
| "sum_loop_double dic_sum (dic # rest) h =
     (if length (h ! dic_sum) = 0
      then sum_loop_double dic_sum rest (store_items_double dic_sum (h ! dic) h)
      else if set (map fst (h ! dic_sum)) \<noteq> set (map fst (h ! dic)) then Inl AssertionError
      else case add_items_double dic_sum (h ! dic) h of
             Inl e \<Rightarrow> Inl e
           | Inr h' \<Rightarrow> sum_loop_double dic_sum rest h')"

text \<open>\<^verbatim>\<open>for key in dic_sum: dic_sum[key] /= len(dic_list)\<close>\<close>

fun divide_items_double :: "nat \<Rightarrow> nat \<Rightarrow> string list \<Rightarrow> dheap \<Rightarrow> error + dheap" where
  "divide_items_double dic_sum n [] h = Inr h"
| "divide_items_double dic_sum n (key # rest) h =
     (case map_of (h ! dic_sum) key of
        None \<Rightarrow> Inl (KeyError key)
      | Some v \<Rightarrow>
          (case py_truediv_len v n of
             Inl e \<Rightarrow> Inl e
           | Inr q \<Rightarrow>
               divide_items_double dic_sum n rest
                 (h[dic_sum := AList.update key q (h ! dic_sum)])))"

definition average_dic_double :: "dheap \<Rightarrow> nat list \<Rightarrow> error + (nat \<times> dheap)" where
  "average_dic_double h dic_list =
     (if length dic_list = 0 then Inr (length h, h @ [[]])
      else
        let dic_sum = length h; h1 = h @ [[]] in
        case sum_loop_double dic_sum dic_list h1 of
          Inl e \<Rightarrow> Inl e
        | Inr h2 \<Rightarrow>
            (case divide_items_double dic_sum (length dic_list) (map fst (h2 ! dic_sum)) h2 of
               Inl e \<Rightarrow> Inl e
             | Inr h3 \<Rightarrow> Inr (dic_sum, h3)))"

text \<open>
  The mean as the loop computes it for one key: the values of the key added in list
  order, each addition rounded, and the sum divided by the number of values.
\<close>

definition mean_double :: "double list \<Rightarrow> error + double" where
  "mean_double vs = py_truediv_len (foldl fadd (hd vs) (tl vs)) (length vs)"

text \<open>
  The same function over the reals. Its control flow, and with it every key set and every
  assertion, is that of the double version; only the sums and quotients are exact.
\<close>

type_synonym dict = "(string \<times> real) list"
type_synonym heap = "dict list"

fun store_items :: "nat \<Rightarrow> (string \<times> real) list \<Rightarrow> heap \<Rightarrow> heap" where
  "store_items dic_sum [] h = h"
| "store_items dic_sum ((key, val) # kvs) h =
     store_items dic_sum kvs (h[dic_sum := AList.update key val (h ! dic_sum)])"

fun add_items :: "nat \<Rightarrow> (string \<times> real) list \<Rightarrow> heap \<Rightarrow> error + heap" where
  "add_items dic_sum [] h = Inr h"
| "add_items dic_sum ((key, val) # kvs) h =
     (case map_of (h ! dic_sum) key of
        None \<Rightarrow> Inl (KeyError key)
      | Some old \<Rightarrow> add_items dic_sum kvs (h[dic_sum := AList.update key (old + val) (h ! dic_sum)]))"

fun sum_loop :: "nat \<Rightarrow> nat list \<Rightarrow> heap \<Rightarrow> error + heap" where
  "sum_loop dic_sum [] h = Inr h"
| "sum_loop dic_sum (dic # rest) h =
     (if length (h ! dic_sum) = 0 then sum_loop dic_sum rest (store_items dic_sum (h ! dic) h)
      else if set (map fst (h ! dic_sum)) \<noteq> set (map fst (h ! dic)) then Inl AssertionError
      else case add_items dic_sum (h ! dic) h of
             Inl e \<Rightarrow> Inl e
           | Inr h' \<Rightarrow> sum_loop dic_sum rest h')"

fun divide_items :: "nat \<Rightarrow> real \<Rightarrow> string list \<Rightarrow> heap \<Rightarrow> error + heap" where
  "divide_items dic_sum n [] h = Inr h"
| "divide_items dic_sum n (key # keys) h =
     (case map_of (h ! dic_sum) key of
        None \<Rightarrow> Inl (KeyError key)
      | Some v \<Rightarrow>
          (case py_truediv v n of
             Inl e \<Rightarrow> Inl e
           | Inr q \<Rightarrow> divide_items dic_sum n keys (h[dic_sum := AList.update key q (h ! dic_sum)])))"

definition average_dic :: "heap \<Rightarrow> nat list \<Rightarrow> error + (nat \<times> heap)" where
  "average_dic h dic_list =
     (if length dic_list = 0 then Inr (length h, h @ [[]])
      else
        let dic_sum = length h; h1 = h @ [[]] in
        case sum_loop dic_sum dic_list h1 of
          Inl e \<Rightarrow> Inl e
        | Inr h2 \<Rightarrow>
            (case divide_items dic_sum (real (length dic_list)) (map fst (h2 ! dic_sum)) h2 of
               Inl e \<Rightarrow> Inl e
             | Inr h3 \<Rightarrow> Inr (dic_sum, h3)))"

text \<open>The key set of a dictionary.\<close>

definition keys :: "dict \<Rightarrow> string set" where
  "keys d = set (map fst d)"

subsection \<open>The checks at the start of \<^verbatim>\<open>main\<close>\<close>

text \<open>
  The parsed command line, with the attribute \<open>n_gpu\<close> that \<^verbatim>\<open>main\<close> adds (its value
  before \<^verbatim>\<open>main\<close> sets it is never read).
\<close>

record args =
  output_dir :: string
  do_train :: bool
  overwrite_output_dir :: bool
  local_rank :: int
  no_cuda :: bool
  n_gpu :: int
  language :: string
  train_language :: "string option"
  logging_steps :: int
  logging_steps_in_sample :: int
  per_gpu_train_batch_size :: int
  gradient_accumulation_steps :: int
  task_name :: string

text \<open>
  The namespace \<^verbatim>\<open>parse_args\<close> returns when only the required options are given; the
  other fields hold the defaults of their \<^verbatim>\<open>add_argument\<close> calls.
\<close>

definition default_args :: "string \<Rightarrow> string \<Rightarrow> string \<Rightarrow> args" where
  "default_args out lang task =
     \<lparr> output_dir = out, do_train = False, overwrite_output_dir = False, local_rank = - 1,
       no_cuda = False, n_gpu = 0, language = lang, train_language = None,
       logging_steps = 50, logging_steps_in_sample = - 1, per_gpu_train_batch_size = 8,
       gradient_accumulation_steps = 1, task_name = task \<rparr>"

text \<open>
  What \<^verbatim>\<open>main\<close> reads from outside: the file system (a path is absent, a file, or a
  directory with its entries), the number of CUDA devices, and the task names of the
  imported table \<^verbatim>\<open>xglue_processors\<close>.
\<close>

datatype node = File | Dir "string list"

record env =
  fs :: "string \<Rightarrow> node option"
  cuda_device_count :: int
  processors :: "string list"

definition os_path_exists :: "env \<Rightarrow> string \<Rightarrow> bool" where
  "os_path_exists e p = (fs e p \<noteq> None)"

definition os_listdir :: "env \<Rightarrow> string \<Rightarrow> error + string list" where
  "os_listdir e p =
     (case fs e p of
        None \<Rightarrow> Inl FileNotFoundError
      | Some File \<Rightarrow> Inl NotADirectoryError
      | Some (Dir entries) \<Rightarrow> Inr entries)"

definition output_dir_message :: "string \<Rightarrow> string" where
  "output_dir_message d =
     ''Output directory ('' @ d @
     '') already exists and is not empty. Use --overwrite_output_dir to overcome.''"

text \<open>
  \<^verbatim>\<open>
  if (os.path.exists(args.output_dir) and os.listdir(args.output_dir)
      and args.do_train and not args.overwrite_output_dir):
      raise ValueError("Output directory ({}) already exists and is not empty. ...")
  \<close>
  \<^verbatim>\<open>and\<close> evaluates left to right and stops at the first false operand.
\<close>

definition check_output_dir :: "env \<Rightarrow> args \<Rightarrow> error + unit" where
  "check_output_dir e a =
     (if os_path_exists e (output_dir a) then
        (case os_listdir e (output_dir a) of
           Inl err \<Rightarrow> Inl err
         | Inr entries \<Rightarrow>
             if entries \<noteq> [] \<and> do_train a \<and> \<not> overwrite_output_dir a
             then Inl (ValueError (output_dir_message (output_dir a)))
             else Inr ())
      else Inr ())"

text \<open>
  \<^verbatim>\<open>
  if args.local_rank == -1 or args.no_cuda:
      args.n_gpu = torch.cuda.device_count()
  else:
      args.n_gpu = 1
  \<close>
  The calls into the libraries between the checks (debugger attachment, device and
  process-group setup, logging, seeding) are taken to return.
\<close>

definition setup_devices :: "env \<Rightarrow> args \<Rightarrow> args" where
  "setup_devices e a =
     (if local_rank a = - 1 \<or> no_cuda a then a\<lparr>n_gpu := cuda_device_count e\<rparr>
      else a\<lparr>n_gpu := 1\<rparr>)"

text \<open>
  \<^verbatim>\<open>
  if args.train_language is None or args.train_language == "all":
      args.train_language = args.language
  \<close>
\<close>

definition preprocess_args :: "args \<Rightarrow> args" where
  "preprocess_args a =
     (if train_language a = None \<or> train_language a = Some ''all''
      then a\<lparr>train_language := Some (language a)\<rparr> else a)"

text \<open>
  \<^verbatim>\<open>
  assert not (args.logging_steps != -1 and args.logging_steps_in_sample != -1), ...
  \<close>
\<close>

definition assert_logging_steps :: "args \<Rightarrow> error + unit" where
  "assert_logging_steps a =
     (if \<not> (logging_steps a \<noteq> - 1 \<and> logging_steps_in_sample a \<noteq> - 1) then Inr ()
      else Inl AssertionError)"

text \<open>
  \<^verbatim>\<open>
  if args.logging_steps == -1 and args.logging_steps_in_sample != -1:
      total_batch_size = args.n_gpu * args.per_gpu_train_batch_size * args.gradient_accumulation_steps
      args.logging_steps = args.logging_steps_in_sample // total_batch_size
  \<close>
\<close>

definition derive_logging_steps :: "args \<Rightarrow> error + args" where
  "derive_logging_steps a =
     (if logging_steps a = - 1 \<and> logging_steps_in_sample a \<noteq> - 1 then
        (let total_batch_size =
               n_gpu a * per_gpu_train_batch_size a * gradient_accumulation_steps a
         in if total_batch_size = 0 then Inl ZeroDivisionError
            else Inr (a\<lparr>logging_steps := logging_steps_in_sample a div total_batch_size\<rparr>))
      else Inr a)"

text \<open>
  \<^verbatim>\<open>
  if args.task_name not in processors:
      raise ValueError("Task not found: %s" % (args.task_name))
  \<close>
\<close>

definition task_not_found_message :: "string \<Rightarrow> string" where
  "task_not_found_message t = ''Task not found: '' @ t"

definition check_task_name :: "env \<Rightarrow> args \<Rightarrow> error + args" where
  "check_task_name e a =
     (if task_name a \<notin> set (processors e)
      then Inl (ValueError (task_not_found_message (task_name a))) else Inr a)"

text \<open>What \<^verbatim>\<open>main\<close> does once the assertion on the logging options has passed.\<close>

definition after_assert :: "env \<Rightarrow> args \<Rightarrow> error + args" where
  "after_assert e a =
     (case derive_logging_steps a of
        Inl err \<Rightarrow> Inl err
      | Inr a' \<Rightarrow> check_task_name e a')"

text \<open>
  \<^verbatim>\<open>main\<close> from the parsed arguments up to the check of the task name: an exception,
  or the arguments with which the loading of the model begins. The rest of \<^verbatim>\<open>main\<close>
  (loading, training, evaluation) is library work outside the model.
\<close>

definition main :: "env \<Rightarrow> args \<Rightarrow> error + args" where
  "main e a =
     (case check_output_dir e a of
        Inl err \<Rightarrow> Inl err
      | Inr _ \<Rightarrow>
          (let a1 = preprocess_args (setup_devices e a) in
           case assert_logging_steps a1 of
             Inl err \<Rightarrow> Inl err
           | Inr _ \<Rightarrow> after_assert e a1))"

subsection \<open>Example inputs\<close>

text \<open>
  A machine with one CUDA device on which the output path does not exist, and the same
  machine after a training run has left a checkpoint in the directory \<^verbatim>\<open>out\<close>.
\<close>

definition env_fresh :: env where
  "env_fresh =
     \<lparr> fs = (\<lambda>p. None), cuda_device_count = 1,
       processors = [''xnli'', ''pawsx'', ''ads'', ''rel'', ''qam'', ''news''] \<rparr>"

definition env_used :: env where
  "env_used =
     env_fresh\<lparr> fs := (\<lambda>p. if p = ''out'' then Some (Dir [''checkpoint-50'']) else None) \<rparr>"

text \<open>
  \<^verbatim>\<open>--output_dir out --language en --task_name xnli --do_train\<close>, and the same with
  \<^verbatim>\<open>--logging_steps_in_sample 100\<close> added.
\<close>

definition args_train :: args where
  "args_train = (default_args ''out'' ''en'' ''xnli'')\<lparr> do_train := True \<rparr>"

definition args_both :: args where
  "args_both = args_train\<lparr> logging_steps_in_sample := 100 \<rparr>"

subsection \<open>Facts about the primitives\<close>

lemma map_result_total:
  "(\<And>x. x \<in> set xs \<Longrightarrow> f x = Inr (g x)) \<Longrightarrow> map_result f xs = Inr (map g xs)"
  by (induction xs) simp_all

lemma map_result_length: "map_result f xs = Inr ys \<Longrightarrow> length ys = length xs"
  by (induction xs arbitrary: ys) (auto split: sum.splits)

lemma map_truediv_nonzero:
  "d \<noteq> 0 \<Longrightarrow> map_result (\<lambda>x. py_truediv (h x) d) xs = Inr (map (\<lambda>x. h x / d) xs)"
  by (rule map_result_total) (simp add: py_truediv_def)

lemma map_truediv_Inr:
  "map_result (\<lambda>x. py_truediv (h x) d) xs = Inr ys \<Longrightarrow> xs \<noteq> [] \<Longrightarrow>
     d \<noteq> 0 \<and> ys = map (\<lambda>x. h x / d) xs"
proof -
  assume res: "map_result (\<lambda>x. py_truediv (h x) d) xs = Inr ys" and ne: "xs \<noteq> []"
  have "d \<noteq> 0"
  proof
    assume "d = 0"
    with ne have "map_result (\<lambda>x. py_truediv (h x) d) xs = Inl ZeroDivisionError"
      by (cases xs) (simp_all add: py_truediv_def)
    with res show False by simp
  qed
  with res show ?thesis by (simp add: map_truediv_nonzero)
qed

lemma sum_list_divide: "sum_list (map (\<lambda>x. h x / (d::real)) xs) = sum_list (map h xs) / d"
  by (induction xs) (simp_all add: add_divide_distrib)

lemma sum_list_pos_nat: "xs \<noteq> [] \<Longrightarrow> \<forall>x\<in>set xs. 0 < x \<Longrightarrow> 0 < sum_list (xs :: nat list)"
  by (cases xs) auto

lemma sum_list_pos_real: "xs \<noteq> [] \<Longrightarrow> \<forall>x\<in>set xs. 0 < x \<Longrightarrow> 0 < sum_list (xs :: real list)"
  by (induction xs) (auto intro: add_pos_nonneg sum_list_nonneg less_imp_le)

subsection \<open>Rounding to double precision\<close>

lemma rnd_zero: "rnd 0 = Finite 0"
  by (simp add: rnd_def)


lemma find_exp_eq:
  "2 powi e \<le> x \<Longrightarrow> x < 2 powi (e + 1) \<Longrightarrow> - 1021 \<le> e \<Longrightarrow> e \<le> int n - 1022 \<Longrightarrow>
   find_exp n x = e"
proof (induction n)
  case 0
  then show ?case by simp
next
  case (Suc n)
  show ?case
  proof (cases "e = int (Suc n) - 1022")
    case True
    with Suc.prems(1) show ?thesis by simp
  next
    case False
    with Suc.prems(4) have le: "e \<le> int n - 1022" by simp
    then have "e + 1 \<le> int (Suc n) - 1022" by simp
    then have "(2::real) powi (e + 1) \<le> 2 powi (int (Suc n) - 1022)"
      by (intro power_int_increasing) simp_all
    with Suc.prems(2) have "\<not> 2 powi (int (Suc n) - 1022) \<le> x" by linarith
    with Suc.IH [OF Suc.prems(1,2,3) le] show ?thesis by simp
  qed
qed

lemma expo_normal:
  "2 powi e \<le> \<bar>x\<bar> \<Longrightarrow> \<bar>x\<bar> < 2 powi (e + 1) \<Longrightarrow> - 1021 \<le> e \<Longrightarrow> e \<le> 1024 \<Longrightarrow> expo x = e"
  unfolding expo_def by (rule find_exp_eq) simp_all


text \<open>The rounding of a number whose binary exponent is known.\<close>

lemma rnd_at:
  assumes "2 powi e \<le> \<bar>x\<bar>" and "\<bar>x\<bar> < 2 powi (e + 1)" and "- 1021 \<le> e" and "e \<le> 1024"
  shows "rnd x =
     (if 2 powi 1024 \<le> \<bar>real_of_int (rne (x / 2 powi (e - 52))) * 2 powi (e - 52)\<bar>
      then (if 0 < x then PosInf else NegInf)
      else Finite (of_int (rne (x / 2 powi (e - 52))) * 2 powi (e - 52)))"
proof -
  have "(0::real) < 2 powi e" by simp
  with assms(1) have "0 < \<bar>x\<bar>" by linarith
  then have "x \<noteq> 0" by simp
  moreover have "expo x = e" using assms by (rule expo_normal)
  ultimately show ?thesis by (simp add: rnd_def Let_def)
qed




text \<open>
  A number of magnitude at most one is rounded to a double no further than \<open>2\<^bsup>-53\<^esup>\<close> from it,
  and the rounding does not pass one.
\<close>

lemma rne_error: "\<bar>real_of_int (rne t) - t\<bar> \<le> 1 / 2"
proof -
  have "real_of_int \<lfloor>t\<rfloor> \<le> t" "t < real_of_int \<lfloor>t\<rfloor> + 1" by linarith+
  then show ?thesis by (auto simp: rne_def Let_def)
qed

lemma rne_le: "t \<le> real_of_int N \<Longrightarrow> rne t \<le> N"
proof -
  assume le: "t \<le> real_of_int N"
  have f: "real_of_int \<lfloor>t\<rfloor> \<le> t" "t < real_of_int \<lfloor>t\<rfloor> + 1" by linarith+
  from le have fl: "\<lfloor>t\<rfloor> \<le> N" by (simp add: floor_le_iff)
  show ?thesis
  proof (cases "t = real_of_int \<lfloor>t\<rfloor>")
    case True
    then have "rne t = \<lfloor>t\<rfloor>" by (simp add: rne_def Let_def)
    with fl show ?thesis by simp
  next
    case False
    with f(1) have "real_of_int \<lfloor>t\<rfloor> < t" by linarith
    with le have "real_of_int \<lfloor>t\<rfloor> < real_of_int N" by linarith
    then have "\<lfloor>t\<rfloor> + 1 \<le> N" by simp
    moreover have "rne t \<le> \<lfloor>t\<rfloor> + 1" by (simp add: rne_def Let_def)
    ultimately show ?thesis by linarith
  qed
qed

lemma find_exp_ge: "- 1022 \<le> find_exp n x"
  by (induction n) simp_all

lemma find_exp_below: "find_exp n x = - 1022 \<or> 2 powi (find_exp n x) \<le> x"
  by (induction n) simp_all

lemma expo_le_zero:
  assumes "\<bar>x\<bar> \<le> 1"
  shows "expo x \<le> 0"
proof (rule ccontr)
  assume "\<not> expo x \<le> 0"
  then have e: "1 \<le> expo x" by simp
  then have "(2::real) powi 1 \<le> 2 powi (expo x)" by (intro power_int_increasing) simp_all
  moreover from e find_exp_below [of 2046 "\<bar>x\<bar>"] have "2 powi (expo x) \<le> \<bar>x\<bar>"
    by (auto simp: expo_def)
  ultimately show False using assms by simp
qed

lemma rnd_error:
  assumes "\<bar>x\<bar> \<le> 1"
  shows "\<exists>y. rnd x = Finite y \<and> \<bar>y - x\<bar> \<le> 2 powi (- 53) \<and> (x \<le> 1 \<longrightarrow> y \<le> 1)"
proof (cases "x = 0")
  case True
  then show ?thesis by (simp add: rnd_def)
next
  case False
  define e where "e = expo x"
  define q :: real where "q = 2 powi (e - 52)"
  define y where "y = real_of_int (rne (x / q)) * q"
  have q0: "0 < q" by (simp add: q_def)
  from expo_le_zero [OF assms] have e0: "e \<le> 0" by (simp add: e_def)
  then have "e - 52 \<le> - 52" by simp
  then have "q \<le> 2 powi (- 52)" unfolding q_def by (intro power_int_increasing) simp_all
  then have qh: "q / 2 \<le> 2 powi (- 53)" by (simp add: power_int_minus)
  have "y - x = (real_of_int (rne (x / q)) - x / q) * q"
    using q0 by (simp add: y_def field_simps)
  then have "\<bar>y - x\<bar> = \<bar>real_of_int (rne (x / q)) - x / q\<bar> * q"
    using q0 by (simp add: abs_mult)
  also have "\<dots> \<le> (1 / 2) * q"
    using rne_error [of "x / q"] q0 by (intro mult_right_mono) simp_all
  finally have err: "\<bar>y - x\<bar> \<le> 2 powi (- 53)" using qh by simp
  have "(2::real) powi (- 53) \<le> 1" by (simp add: power_int_minus inverse_eq_divide)
  with err assms have "\<bar>y\<bar> \<le> 2" by linarith
  moreover have "(2::real) < 2 powi 1024" by simp
  ultimately have fin: "\<not> 2 powi 1024 \<le> \<bar>y\<bar>" by linarith
  have r: "rnd x = Finite y"
    using False fin by (simp add: rnd_def Let_def e_def [symmetric] q_def [symmetric] y_def [symmetric])
  have le1: "y \<le> 1" if "x \<le> 1"
  proof -
    define m where "m = nat (52 - e)"
    with e0 have em: "e - 52 = - int m" by simp
    have qi: "q = inverse (2 ^ m)" by (simp only: q_def em power_int_minus power_int_of_nat)
    then have "x / q = x * 2 ^ m" by (simp only: divide_inverse inverse_inverse_eq)
    also have "\<dots> \<le> 1 * 2 ^ m" using that by (intro mult_right_mono) simp_all
    finally have "x / q \<le> real_of_int (2 ^ m)" by simp
    then have "rne (x / q) \<le> 2 ^ m" by (rule rne_le)
    then have "real_of_int (rne (x / q)) \<le> 2 ^ m" by (metis of_int_le_iff of_int_numeral of_int_power)
    then have "y \<le> 2 ^ m * q" unfolding y_def using q0 by (intro mult_right_mono) simp_all
    then show ?thesis by (simp add: qi)
  qed
  from r err le1 show ?thesis by blast
qed

text \<open>Every integer below \<open>2\<^sup>5\<^sup>3\<close> is a double.\<close>

lemma rne_of_int: "rne (of_int z) = z"
  by (simp add: rne_def)

lemma rnd_nat:
  assumes "0 < n" and "n < 2 ^ 53"
  shows "rnd (real n) = Finite (real n)"
proof -
  from assms(1) have "1 \<le> n" by simp
  with ex_power_ivl1 [of 2 n] obtain e where e: "2 ^ e \<le> n" "n < 2 ^ (e + 1)" by auto
  have "e < 53"
  proof (rule ccontr)
    assume "\<not> e < 53"
    then have "(2::nat) ^ 53 \<le> 2 ^ e" by (intro power_increasing) simp_all
    with e(1) assms(2) show False by simp
  qed
  define m where "m = 52 - e"
  with \<open>e < 53\<close> have em: "int e - 52 = - int m" by simp
  have q: "(2::real) powi (int e - 52) = inverse (2 ^ m)"
    by (simp only: em power_int_minus power_int_of_nat)
  have lo: "2 powi (int e) \<le> \<bar>real n\<bar>"
  proof -
    have "real (2 ^ e) \<le> real n" using e(1) by (simp only: of_nat_le_iff)
    then show ?thesis by simp
  qed
  have hi: "\<bar>real n\<bar> < 2 powi (int e + 1)"
  proof -
    have "real n < real (2 ^ (e + 1))" using e(2) by (simp only: of_nat_less_iff)
    moreover have "int e + 1 = int (e + 1)" by simp
    ultimately show ?thesis by (simp only: power_int_of_nat abs_of_nat of_nat_power of_nat_numeral)
  qed
  have "real n / 2 powi (int e - 52) = real_of_int (int (n * 2 ^ m))"
    by (simp add: q field_simps)
  then have r: "rne (real n / 2 powi (int e - 52)) = int (n * 2 ^ m)"
    by (simp only: rne_of_int)
  have y: "real_of_int (int (n * 2 ^ m)) * 2 powi (int e - 52) = real n"
    by (simp add: q)
  have "real n < 2 ^ 53" using assms(2) by (metis of_nat_less_iff of_nat_numeral of_nat_power)
  also have "(2::real) ^ 53 \<le> 2 powi 1024" by simp
  finally have small: "\<not> 2 powi 1024 \<le> \<bar>real n\<bar>" by simp
  have side: "- 1021 \<le> int e" "int e \<le> 1024" using \<open>e < 53\<close> by simp_all
  have "rnd (real n) =
      (if 2 powi 1024 \<le> \<bar>real n\<bar> then (if 0 < real n then PosInf else NegInf)
       else Finite (real n))"
    using rnd_at [OF lo hi side] unfolding r y .
  with small show ?thesis by (simp only: if_False)
qed

lemma float_of_nat_exact: "0 < n \<Longrightarrow> n < 2 ^ 53 \<Longrightarrow> float_of_nat n = Inr (Finite (real n))"
  by (simp add: float_of_nat_def rnd_nat)

lemma py_truediv_len_ok:
  "0 < n \<Longrightarrow> n < 2 ^ 53 \<Longrightarrow> \<exists>q. py_truediv_len v n = Inr q"
  by (simp add: py_truediv_len_def float_of_nat_exact fdiv_def)


text \<open>Rules that evaluate the double operations on numbers between \<open>1/16\<close> and \<open>16\<close>.\<close>

lemmas rnd_small = rnd_zero rne_def
  rnd_at [where e = "- 4"] rnd_at [where e = "- 3"] rnd_at [where e = "- 2"]
  rnd_at [where e = "- 1"] rnd_at [where e = 0] rnd_at [where e = 1] rnd_at [where e = 2]
  rnd_at [where e = 3]

lemmas double_eval = merge_probs_double_def float_of_nat_def py_pow_double_def libm_pow_def
  sum_double_def fdiv_def fsub_def select_task_double_def scan_loop_double.simps

subsection \<open>The probability vector\<close>

lemma merge_probs_Inr:
  assumes res: "merge_probs ss r = Inr ps" and ne: "ss \<noteq> []"
  shows "sum_list ps = 1 \<and> length ps = length ss"
proof -
  from res obtain probs1 probs2 where
    p1: "map_result (\<lambda>item. py_truediv (real item) (real (sum_list ss))) ss = Inr probs1" and
    p2: "map_result (\<lambda>item. py_pow item r) probs1 = Inr probs2" and
    p3: "map_result (\<lambda>item. py_truediv item (sum_list probs2)) probs2 = Inr ps"
    by (auto simp: merge_probs_def split: sum.splits)
  have len: "length probs2 = length ss"
    using map_result_length [OF p1] map_result_length [OF p2] by simp
  with ne have ne2: "probs2 \<noteq> []" by auto
  from map_truediv_Inr [OF p3 ne2]
  have nz: "sum_list probs2 \<noteq> 0" and ps: "ps = map (\<lambda>x. x / sum_list probs2) probs2"
    by simp_all
  have "sum_list ps = sum_list (map (\<lambda>x. x) probs2) / sum_list probs2"
    unfolding ps by (rule sum_list_divide)
  with nz have "sum_list ps = 1" by simp
  moreover have "length ps = length ss" using ps len by simp
  ultimately show ?thesis by simp
qed


lemma merge_probs_positive:
  assumes pos: "\<forall>s\<in>set ss. 0 < s"
  shows "merge_probs ss r = Inr (spec_probs ss r)"
proof (cases "ss = []")
  case True
  then show ?thesis by (simp add: merge_probs_def spec_probs_def spec_weights_def)
next
  case False
  define S where "S = real (sum_list ss)"
  have "0 < sum_list ss" by (rule sum_list_pos_nat [OF False pos])
  then have S: "0 < S" by (simp only: S_def of_nat_0_less_iff)
  then have Snz: "S \<noteq> 0" by simp
  have p1: "map_result (\<lambda>item. py_truediv (real item) S) ss = Inr (map (\<lambda>s. real s / S) ss)"
    by (rule map_truediv_nonzero [OF Snz])
  have w: "spec_weights ss r = map (\<lambda>s. (real s / S) powr r) ss"
    by (simp only: spec_weights_def S_def)
  have "map_result (\<lambda>item. py_pow item r) (map (\<lambda>s. real s / S) ss)
      = Inr (map (\<lambda>x. x powr r) (map (\<lambda>s. real s / S) ss))"
    using pos S by (intro map_result_total) (auto simp: py_pow_def)
  then have p2: "map_result (\<lambda>item. py_pow item r) (map (\<lambda>s. real s / S) ss)
      = Inr (spec_weights ss r)"
    by (simp add: w comp_def)
  have wpos: "\<forall>x\<in>set (spec_weights ss r). 0 < x"
    using pos S by (auto simp: w)
  have wne: "spec_weights ss r \<noteq> []" using False by (simp add: w)
  have T: "sum_list (spec_weights ss r) \<noteq> 0"
    using sum_list_pos_real [OF wne wpos] by simp
  have p3: "map_result (\<lambda>item. py_truediv item (sum_list (spec_weights ss r))) (spec_weights ss r)
      = Inr (spec_probs ss r)"
    unfolding spec_probs_def using T by (rule map_truediv_nonzero)
  have "merge_probs ss r =
     (case map_result (\<lambda>item. py_truediv (real item) S) ss of
        Inl e \<Rightarrow> Inl e
      | Inr probs1 \<Rightarrow>
          (case map_result (\<lambda>item. py_pow item r) probs1 of
             Inl e \<Rightarrow> Inl e
           | Inr probs2 \<Rightarrow> map_result (\<lambda>item. py_truediv item (sum_list probs2)) probs2))"
    by (simp only: merge_probs_def S_def)
  then show ?thesis
    by (simp add: p1 p2 p3)
qed



lemma merge_probs_double_length:
  assumes "merge_probs_double pow ss r = Inr ps"
  shows "length ps = length ss"
proof -
  from assms obtain p1 p2 where
    a: "map_result
             (\<lambda>item. case float_of_nat item of
                        Inl e \<Rightarrow> Inl e
                      | Inr a \<Rightarrow>
                          (case float_of_nat (sum_list ss) of
                             Inl e \<Rightarrow> Inl e
                           | Inr s \<Rightarrow> fdiv a s)) ss = Inr p1"
    and b: "map_result (\<lambda>item. py_pow_double pow item r) p1 = Inr p2"
    and c: "map_result (\<lambda>item. fdiv item (sum_double p2)) p2 = Inr ps"
    by (auto simp: merge_probs_double_def split: sum.splits)
  from map_result_length [OF a] map_result_length [OF b] map_result_length [OF c]
  show ?thesis by simp
qed





text \<open>
  C4: for a non-empty list of positive sizes and every exponent, the probability vector
  is computed without an exception and sums to exactly one (over the reals).
\<close>

theorem merge_probs_sum_one:
  assumes "dataset_size \<noteq> []" and "\<forall>s\<in>set dataset_size. 0 < s"
  shows "\<exists>probs. merge_probs dataset_size task_ratio = Inr probs \<and> sum_list probs = 1"
proof -
  have "merge_probs dataset_size task_ratio = Inr (spec_probs dataset_size task_ratio)"
    using assms(2) by (rule merge_probs_positive)
  moreover from this have "sum_list (spec_probs dataset_size task_ratio) = 1"
    using merge_probs_Inr assms(1) by blast
  ultimately show ?thesis by blast
qed

theorem merge_probs_sum_one_witness:
  "\<exists>probs. merge_probs [2, 3, 5] (1 / 2) = Inr probs \<and> sum_list probs = 1"
  using merge_probs_sum_one [of "[2, 3, 5]" "1 / 2"] by simp

subsection \<open>The scan over the probability vector\<close>

lemma scan_loop_ge: "i \<le> scan_loop probs r i"
proof (induction probs r i rule: scan_loop.induct)
  case (1 probs r i)
  show ?case
  proof (cases "0 \<le> r \<and> i < length probs")
    case True
    with "1.IH" have "i + 1 \<le> scan_loop probs (r - probs ! i) (i + 1)" by simp
    with True show ?thesis by (subst scan_loop.simps) simp
  next
    case False
    then show ?thesis by (subst scan_loop.simps) auto
  qed
qed

lemma scan_loop_inv:
  "i \<le> length probs \<Longrightarrow> r = u - sum_list (take i probs) \<Longrightarrow>
   scan_loop probs r i \<le> length probs
   \<and> (\<forall>m. i \<le> m \<and> m < scan_loop probs r i \<longrightarrow> sum_list (take m probs) \<le> u)
   \<and> (u < sum_list (take (scan_loop probs r i) probs)
        \<or> (scan_loop probs r i = length probs \<and> sum_list probs \<le> u))"
proof (induction probs r i rule: scan_loop.induct)
  case (1 probs r i)
  show ?case
  proof (cases "0 \<le> r \<and> i < length probs")
    case True
    then have unf: "scan_loop probs r i = scan_loop probs (r - probs ! i) (i + 1)"
      by (subst scan_loop.simps) simp
    from True have tk: "sum_list (take (i + 1) probs) = sum_list (take i probs) + probs ! i"
      by (simp add: take_Suc_conv_app_nth)
    have r': "r - probs ! i = u - sum_list (take (i + 1) probs)"
      using "1.prems"(2) tk by simp
    from True have le: "i + 1 \<le> length probs" by simp
    note IH = "1.IH" [OF True le r']
    have here: "sum_list (take i probs) \<le> u" using True "1.prems"(2) by simp
    have "\<forall>m. i \<le> m \<and> m < scan_loop probs (r - probs ! i) (i + 1)
        \<longrightarrow> sum_list (take m probs) \<le> u"
    proof (intro allI impI)
      fix m assume m: "i \<le> m \<and> m < scan_loop probs (r - probs ! i) (i + 1)"
      show "sum_list (take m probs) \<le> u"
      proof (cases "m = i")
        case True then show ?thesis using here by simp
      next
        case False
        with m have "i + 1 \<le> m" by simp
        with m IH show ?thesis by blast
      qed
    qed
    with IH show ?thesis unfolding unf by blast
  next
    case False
    then have unf: "scan_loop probs r i = i"
      by (subst scan_loop.simps) auto
    have le: "i \<le> length probs" by (rule "1.prems"(1))
    have req: "r = u - sum_list (take i probs)" by (rule "1.prems"(2))
    have none: "\<forall>m. i \<le> m \<and> m < i \<longrightarrow> sum_list (take m probs) \<le> u" by simp
    have "u < sum_list (take i probs) \<or> (i = length probs \<and> sum_list probs \<le> u)"
    proof (cases "r < 0")
      case True
      with req show ?thesis by linarith
    next
      case nonneg: False
      with False have "\<not> i < length probs" by linarith
      with le have eq: "i = length probs" by linarith
      then have "sum_list (take i probs) = sum_list probs" by simp
      with nonneg req have "sum_list probs \<le> u" by linarith
      with eq show ?thesis by blast
    qed
    with le none show ?thesis unfolding unf by blast
  qed
qed

lemma scan_loop_step:
  "0 \<le> r \<Longrightarrow> i < length probs \<Longrightarrow>
   scan_loop probs r i = scan_loop probs (r - probs ! i) (i + 1)"
  by (subst scan_loop.simps) simp

lemma scan_loop_pos:
  assumes "probs \<noteq> []" and "0 \<le> u"
  shows "1 \<le> scan_loop probs u 0"
proof -
  from assms have "scan_loop probs u 0 = scan_loop probs (u - probs ! 0) (0 + 1)"
    by (intro scan_loop_step) simp_all
  moreover have "0 + 1 \<le> scan_loop probs (u - probs ! 0) (0 + 1)"
    by (rule scan_loop_ge)
  ultimately show ?thesis by linarith
qed

lemma scan_loop_inv0:
  "scan_loop probs u 0 \<le> length probs
   \<and> (\<forall>m. m < scan_loop probs u 0 \<longrightarrow> sum_list (take m probs) \<le> u)
   \<and> (u < sum_list (take (scan_loop probs u 0) probs)
        \<or> (scan_loop probs u 0 = length probs \<and> sum_list probs \<le> u))"
  using scan_loop_inv [of 0 probs u u] by simp


lemma select_task_interval:
  assumes ne: "probs \<noteq> []" and u0: "0 \<le> u" and u1: "u < sum_list probs"
  shows "\<exists>i<length probs. select_task probs u = int i
           \<and> sum_list (take i probs) \<le> u \<and> u < sum_list (take (Suc i) probs)
           \<and> (\<forall>i'<i. \<not> u < sum_list (take (Suc i') probs))"
proof -
  define j where "j = scan_loop probs u 0"
  have inv: "j \<le> length probs"
    "\<forall>m. m < j \<longrightarrow> sum_list (take m probs) \<le> u"
    "u < sum_list (take j probs) \<or> (j = length probs \<and> sum_list probs \<le> u)"
    using scan_loop_inv0 [of probs u] unfolding j_def by blast+
  have j1: "1 \<le> j" unfolding j_def using ne u0 by (rule scan_loop_pos)
  from inv(3) u1 have hit: "u < sum_list (take j probs)" by auto
  define i where "i = j - 1"
  with j1 have ji: "j = Suc i" by simp
  have "i < length probs" using inv(1) ji by simp
  moreover have "select_task probs u = int i"
    by (simp add: select_task_def j_def [symmetric] ji)
  moreover have "sum_list (take i probs) \<le> u" using inv(2) ji by simp
  moreover have "u < sum_list (take (Suc i) probs)" using hit ji by simp
  moreover have "\<forall>i'<i. \<not> u < sum_list (take (Suc i') probs)"
  proof (intro allI impI)
    fix i' assume "i' < i"
    then have "Suc i' < j" using ji by simp
    with inv(2) have "sum_list (take (Suc i') probs) \<le> u" by blast
    then show "\<not> u < sum_list (take (Suc i') probs)" by simp
  qed
  ultimately show ?thesis by blast
qed



subsection \<open>The generator\<close>

lemma py_index_range: "py_index n i = Some j \<Longrightarrow> j < n"
  by (auto simp: py_index_def split: if_splits)

lemma py_index_nonneg: "0 \<le> i \<Longrightarrow> py_index n i = Some j \<Longrightarrow> i = int j"
  by (auto simp: py_index_def split: if_splits)

lemma py_index_total: "- int n \<le> i \<Longrightarrow> i < int n \<Longrightarrow> \<exists>j<n. py_index n i = Some j"
  by (auto simp: py_index_def)




text \<open>The scan in double precision runs at most once per entry of the vector.\<close>

lemma scan_loop_double_le:
  "i \<le> length probs \<Longrightarrow> scan_loop_double probs r i \<le> length probs"
proof (induction probs r i rule: scan_loop_double.induct)
  case (1 probs r i)
  show ?case
  proof (cases "fge0 r \<and> i < length probs")
    case True
    then have "scan_loop_double probs r i = scan_loop_double probs (fsub r (probs ! i)) (i + 1)"
      by (subst scan_loop_double.simps) simp
    moreover from True have "i + 1 \<le> length probs" by simp
    ultimately show ?thesis using "1.IH" [OF True] by simp
  next
    case False
    then have "scan_loop_double probs r i = i" by (subst scan_loop_double.simps) auto
    with "1.prems" show ?thesis by simp
  qed
qed

lemma scan_loop_double_ge: "i \<le> scan_loop_double probs r i"
proof (induction probs r i rule: scan_loop_double.induct)
  case (1 probs r i)
  show ?case
  proof (cases "fge0 r \<and> i < length probs")
    case True
    then have "scan_loop_double probs r i = scan_loop_double probs (fsub r (probs ! i)) (i + 1)"
      by (subst scan_loop_double.simps) simp
    with "1.IH" [OF True] show ?thesis by simp
  next
    case False
    then have "scan_loop_double probs r i = i" by (subst scan_loop_double.simps) auto
    then show ?thesis by simp
  qed
qed

lemma select_task_double_bounds:
  "- 1 \<le> select_task_double probs u \<and> select_task_double probs u < int (length probs)"
proof -
  have "scan_loop_double probs (Finite u) 0 \<le> length probs"
    by (rule scan_loop_double_le) simp
  then show ?thesis by (simp add: select_task_double_def)
qed

lemma select_task_double_range:
  assumes "probs \<noteq> []" and "0 \<le> u"
  shows "0 \<le> select_task_double probs u \<and> select_task_double probs u < int (length probs)"
proof -
  from assms have "scan_loop_double probs (Finite u) 0
      = scan_loop_double probs (fsub (Finite u) (probs ! 0)) 1"
    by (subst scan_loop_double.simps) simp
  with scan_loop_double_ge [of 1 probs "fsub (Finite u) (probs ! 0)"]
  have "1 \<le> scan_loop_double probs (Finite u) 0" by simp
  with select_task_double_bounds [of probs u] show ?thesis
    by (simp add: select_task_double_def)
qed

lemma merge_step_double_total:
  assumes len: "length its = length ds" and ne: "\<forall>d\<in>set ds. d \<noteq> []"
      and k: "ds \<noteq> []" and lp: "length probs = length ds"
  shows "\<exists>x its'. merge_step_double probs ds its u = Inr ((select_task_double probs u, x), its')
           \<and> length its' = length ds"
proof -
  let ?s = "select_task_double probs u"
  from k have "1 \<le> int (length its)" using len by (cases ds) simp_all
  with select_task_double_bounds [of probs u] lp len
  have "- int (length its) \<le> ?s" and "?s < int (length its)" by simp_all
  then obtain j where j: "j < length its" "py_index (length its) ?s = Some j"
    using py_index_total by blast
  from j len ne have dne: "ds ! j \<noteq> []" by simp
  show ?thesis
  proof (cases "its ! j")
    case Nil
    with dne j len show ?thesis
      by (cases "ds ! j") (simp_all add: merge_step_double_def next_item_def)
  next
    case (Cons y rest)
    with j len show ?thesis by (simp add: merge_step_double_def next_item_def)
  qed
qed

lemma merge_loop_double_total:
  assumes ne: "\<forall>d\<in>set ds. d \<noteq> []" and k: "ds \<noteq> []" and lp: "length probs = length ds"
  shows "length its = length ds \<Longrightarrow>
         \<exists>ys. merge_loop_double probs ds its us = (ys, None) \<and> length ys = length us"
proof (induction us arbitrary: its)
  case Nil
  then show ?case by simp
next
  case (Cons u us)
  from merge_step_double_total [OF Cons.prems ne k lp, of u]
  obtain x its' where
    st: "merge_step_double probs ds its u = Inr ((select_task_double probs u, x), its')"
    and len': "length its' = length ds" by blast
  from Cons.IH [OF len'] obtain ys where "merge_loop_double probs ds its' us = (ys, None)"
    and "length ys = length us" by blast
  with st show ?case by simp
qed

lemma merge_step_double_restart:
  assumes "py_index (length its) (select_task_double probs u) = Some j" and "its ! j = []"
      and "ds ! j \<noteq> []"
  shows "merge_step_double probs ds its u
           = Inr ((select_task_double probs u, hd (ds ! j)), its[j := tl (ds ! j)])"
  using assms by (cases "ds ! j") (simp_all add: merge_step_double_def next_item_def)

text \<open>
  The remainder the scan carries differs from the exact one by at most \<open>2\<^bsup>-53\<^esup>\<close> for each
  subtraction made, when the probabilities and the draw lie between zero and one.
\<close>

lemma fsub_Finite: "fsub (Finite a) (Finite b) = rnd (a - b)"
  by (simp add: fsub_def)

lemma scan_loop_double_inv:
  assumes ps: "\<forall>p\<in>set ps. 0 \<le> p \<and> p \<le> 1"
  shows "i \<le> length ps \<Longrightarrow> r \<le> 1 \<Longrightarrow>
     \<bar>r - (u - sum_list (take i ps))\<bar> \<le> real i * 2 powi (- 53) \<Longrightarrow>
     (i < scan_loop_double (map Finite ps) (Finite r) i \<longrightarrow>
        sum_list (take (scan_loop_double (map Finite ps) (Finite r) i - 1) ps)
          \<le> u + real (scan_loop_double (map Finite ps) (Finite r) i - 1) * 2 powi (- 53))
     \<and> (scan_loop_double (map Finite ps) (Finite r) i < length ps \<longrightarrow>
        u < sum_list (take (scan_loop_double (map Finite ps) (Finite r) i) ps)
              + real (scan_loop_double (map Finite ps) (Finite r) i) * 2 powi (- 53))"
proof (induction "length ps - i" arbitrary: i r)
  case 0
  then have j: "scan_loop_double (map Finite ps) (Finite r) i = i"
    by (subst scan_loop_double.simps) simp
  from 0 show ?case unfolding j by simp
next
  case (Suc n)
  define E :: real where "E = 2 powi (- 53)"
  define S where "S = sum_list (take i ps)"
  from Suc.hyps(2) have i: "i < length ps" by simp
  note inv = Suc.prems(3) [folded E_def S_def]
  show ?case
  proof (cases "0 \<le> r")
    case False
    then have j: "scan_loop_double (map Finite ps) (Finite r) i = i"
      by (subst scan_loop_double.simps) simp
    from inv have "u - S - real i * E \<le> r" by linarith
    with False have "u < S + real i * E" by linarith
    then show ?thesis unfolding j by (simp add: E_def S_def)
  next
    case True
    define p where "p = ps ! i"
    from i ps have p: "0 \<le> p" "p \<le> 1" by (simp_all add: p_def)
    from True Suc.prems(2) p have "\<bar>r - p\<bar> \<le> 1" and le1: "r - p \<le> 1" by simp_all
    from rnd_error [OF this(1)] le1 obtain y where y: "rnd (r - p) = Finite y"
      and err: "\<bar>y - (r - p)\<bar> \<le> E" and y1: "y \<le> 1" by (auto simp: E_def)
    define j where "j = scan_loop_double (map Finite ps) (Finite y) (i + 1)"
    have unf: "scan_loop_double (map Finite ps) (Finite r) i = j"
      using True i by (subst scan_loop_double.simps) (simp add: fsub_Finite p_def [symmetric] y j_def)
    have tk: "sum_list (take (i + 1) ps) = S + p"
      using i by (simp add: take_Suc_conv_app_nth S_def p_def)
    have "\<bar>y - (u - (S + p))\<bar> \<le> \<bar>y - (r - p)\<bar> + \<bar>r - (u - S)\<bar>" by linarith
    also have "\<dots> \<le> E + real i * E" using err inv by linarith
    also have "\<dots> = real (i + 1) * E" by (simp add: algebra_simps)
    finally have inv': "\<bar>y - (u - sum_list (take (i + 1) ps))\<bar> \<le> real (i + 1) * 2 powi (- 53)"
      by (simp only: tk E_def)
    from Suc.hyps(2) have n: "n = length ps - (i + 1)" by simp
    from i have le: "i + 1 \<le> length ps" by simp
    note IH = Suc.hyps(1) [OF n le y1 inv', folded j_def]
    have ge: "i + 1 \<le> j" unfolding j_def by (rule scan_loop_double_ge)
    have here: "S \<le> u + real i * E" using True inv by linarith
    have A: "sum_list (take (j - 1) ps) \<le> u + real (j - 1) * 2 powi (- 53)"
    proof (cases "j = i + 1")
      case True
      then have "j - 1 = i" by simp
      with here show ?thesis by (simp only: S_def E_def)
    next
      case False
      with ge have "i + 1 < j" by simp
      with IH show ?thesis by blast
    qed
    from A IH show ?thesis unfolding unf by blast
  qed
qed

lemma select_task_double_tolerance:
  assumes ps: "\<forall>p\<in>set ps. 0 \<le> p \<and> p \<le> 1" and ne: "ps \<noteq> []"
      and u0: "0 \<le> u" and u1: "u < 1"
  shows "\<exists>i<length ps. select_task_double (map Finite ps) u = int i
           \<and> sum_list (take i ps) \<le> u + real i * 2 powi (- 53)
           \<and> (Suc i = length ps \<or> u < sum_list (take (Suc i) ps) + real (Suc i) * 2 powi (- 53))"
proof -
  define j where "j = scan_loop_double (map Finite ps) (Finite u) 0"
  from ne have mne: "map Finite ps \<noteq> []" by simp
  from select_task_double_range [OF mne u0]
  have "0 \<le> int j - 1" "int j - 1 < int (length ps)"
    by (simp_all add: select_task_double_def j_def)
  then have j1: "1 \<le> j" and jk: "j \<le> length ps" by simp_all
  have "0 \<le> length ps" "u \<le> 1" "\<bar>u - (u - sum_list (take 0 ps))\<bar> \<le> real 0 * 2 powi (- 53)"
    using u1 by simp_all
  note inv = scan_loop_double_inv [OF ps this, folded j_def]
  define i where "i = j - 1"
  with j1 have ji: "j = Suc i" by simp
  from inv j1 have A: "sum_list (take i ps) \<le> u + real i * 2 powi (- 53)"
    by (simp add: i_def)
  from inv have B: "Suc i = length ps \<or> u < sum_list (take (Suc i) ps) + real (Suc i) * 2 powi (- 53)"
    using jk unfolding ji by (cases "Suc i = length ps") simp_all
  have "select_task_double (map Finite ps) u = int i"
    by (simp add: select_task_double_def j_def [symmetric] ji)
  moreover from jk ji have "i < length ps" by simp
  ultimately show ?thesis using A B by blast
qed

lemma select_task_least:
  assumes "merge_probs dataset_size task_ratio = Inr probs" and "dataset_size \<noteq> []"
      and "0 \<le> u" and "u < 1"
  shows "\<exists>i<length probs. select_task probs u = int i
           \<and> sum_list (take i probs) \<le> u \<and> u < sum_list (take (Suc i) probs)
           \<and> i = (LEAST i. u < sum_list (take (Suc i) probs))"
proof -
  from merge_probs_Inr [OF assms(1,2)] have one: "sum_list probs = 1"
    and len: "length probs = length dataset_size" by simp_all
  from len assms(2) have pne: "probs \<noteq> []" by auto
  from assms(4) one have "u < sum_list probs" by simp
  from select_task_interval [OF pne assms(3) this] obtain i where
    i: "i < length probs" "select_task probs u = int i" "sum_list (take i probs) \<le> u"
       "u < sum_list (take (Suc i) probs)"
    and least: "\<forall>i'<i. \<not> u < sum_list (take (Suc i') probs)" by blast
  have "(LEAST i. u < sum_list (take (Suc i) probs)) = i"
  proof (rule Least_equality)
    show "u < sum_list (take (Suc i) probs)" by (rule i(4))
  next
    fix y assume "u < sum_list (take (Suc y) probs)"
    with least show "i \<le> y" by (meson not_le)
  qed
  with i show ?thesis by blast
qed


lemma task_items_Cons:
  "task_items i (y # ys) = (if fst y = int i then snd y # task_items i ys else task_items i ys)"
  by (simp add: task_items_def)




text \<open>
  The generator in double precision yields, like the one over the reals, only indices in
  range and the items of each dataset in order, cycled: these facts rest on the bounds of
  the scan and on the bookkeeping of the iterators, not on the values of the floats.
\<close>

lemma select_task_double_Nil: "select_task_double [] u = - 1"
  using select_task_double_bounds [of "[]" u] by simp

lemma merge_step_double_cases:
  assumes "merge_step_double probs ds its u = Inr ((s, x), its')"
  shows "s = select_task_double probs u \<and>
         (\<exists>j<length its. py_index (length its) s = Some j \<and>
            ((its ! j \<noteq> [] \<and> x = hd (its ! j) \<and> its' = its[j := tl (its ! j)])
             \<or> (its ! j = [] \<and> ds ! j \<noteq> [] \<and> x = hd (ds ! j) \<and> its' = its[j := tl (ds ! j)])))"
  using assms
  by (auto simp: merge_step_double_def next_item_def Let_def py_index_range
           split: option.splits list.splits sum.splits)

lemma merge_loop_double_index:
  "y \<in> set (fst (merge_loop_double probs ds its us)) \<Longrightarrow> length its = n \<Longrightarrow>
     \<exists>u\<in>set us. fst y = select_task_double probs u \<and> py_index n (fst y) \<noteq> None"
proof (induction us arbitrary: its)
  case Nil
  then show ?case by simp
next
  case (Cons u us)
  show ?case
  proof (cases "merge_step_double probs ds its u")
    case (Inl e)
    with Cons.prems show ?thesis by simp
  next
    case (Inr r)
    obtain s x its' where r: "r = ((s, x), its')" by (metis prod.exhaust)
    from merge_step_double_cases [OF Inr [unfolded r]]
    have s: "s = select_task_double probs u" and idx: "py_index (length its) s \<noteq> None"
      and len': "length its' = length its" by auto
    obtain ys e where rec: "merge_loop_double probs ds its' us = (ys, e)" by (metis prod.exhaust)
    with Inr r Cons.prems(1) have "y = (s, x) \<or> y \<in> set ys" by simp
    then show ?thesis
    proof
      assume "y = (s, x)"
      with s idx Cons.prems(2) show ?thesis by simp
    next
      assume "y \<in> set ys"
      with rec have "y \<in> set (fst (merge_loop_double probs ds its' us))" by simp
      from Cons.IH [OF this] len' Cons.prems(2) show ?thesis by simp
    qed
  qed
qed

lemma merge_loop_double_cycle:
  assumes pne: "probs \<noteq> []" and dne: "ds ! i \<noteq> []"
  shows "\<forall>u\<in>set us. 0 \<le> u \<Longrightarrow> i < length its \<Longrightarrow> its ! i = drop c (ds ! i) \<Longrightarrow>
         c \<le> length (ds ! i) \<Longrightarrow> n < length (task_items i (fst (merge_loop_double probs ds its us))) \<Longrightarrow>
         task_items i (fst (merge_loop_double probs ds its us)) ! n
           = ds ! i ! ((c + n) mod length (ds ! i))"
proof (induction us arbitrary: its c n)
  case Nil
  then show ?case by (simp add: task_items_def)
next
  case (Cons u us)
  let ?d = "ds ! i"
  let ?L = "length ?d"
  from dne have Lpos: "0 < ?L" by simp
  from Cons.prems(1) have u0: "0 \<le> u" and us0: "\<forall>u\<in>set us. 0 \<le> u" by simp_all
  show ?case
  proof (cases "merge_step_double probs ds its u")
    case (Inl e)
    with Cons.prems(5) show ?thesis by (simp add: task_items_def)
  next
    case (Inr r)
    obtain s x its' where r: "r = ((s, x), its')" by (metis prod.exhaust)
    obtain ys e where rec: "merge_loop_double probs ds its' us = (ys, e)" by (metis prod.exhaust)
    have out: "fst (merge_loop_double probs ds its (u # us)) = (s, x) # fst (merge_loop_double probs ds its' us)"
      using Inr r rec by simp
    from merge_step_double_cases [OF Inr [unfolded r]] obtain j where
      s: "s = select_task_double probs u" and j: "j < length its"
      and idx: "py_index (length its) s = Some j"
      and upd: "(its ! j \<noteq> [] \<and> x = hd (its ! j) \<and> its' = its[j := tl (its ! j)])
             \<or> (its ! j = [] \<and> ds ! j \<noteq> [] \<and> x = hd (ds ! j) \<and> its' = its[j := tl (ds ! j)])"
      by blast
    from select_task_double_range [OF pne u0] s have "0 \<le> s" by simp
    from py_index_nonneg [OF this idx] have sj: "s = int j" .
    from upd have len': "length its' = length its" by auto
    with Cons.prems(2) have i': "i < length its'" by simp
    show ?thesis
    proof (cases "j = i")
      case False
      with upd Cons.prems(2) have same: "its' ! i = drop c ?d" using Cons.prems(3) by auto
      from False sj have ti: "task_items i (fst (merge_loop_double probs ds its (u # us)))
          = task_items i (fst (merge_loop_double probs ds its' us))"
        unfolding out by (simp add: task_items_Cons)
      from Cons.prems(5) have "n < length (task_items i (fst (merge_loop_double probs ds its' us)))"
        by (simp only: ti)
      from Cons.IH [OF us0 i' same Cons.prems(4) this] show ?thesis by (simp only: ti)
    next
      case True
      with sj have ti: "task_items i (fst (merge_loop_double probs ds its (u # us)))
          = x # task_items i (fst (merge_loop_double probs ds its' us))"
        unfolding out by (simp add: task_items_Cons)
      show ?thesis
      proof (cases "c < ?L")
        case clt: True
        then have dr: "drop c ?d = ?d ! c # drop (Suc c) ?d" by (simp add: Cons_nth_drop_Suc)
        with upd True Cons.prems(3) Cons.prems(2)
        have x: "x = ?d ! c" and nxt: "its' ! i = drop (Suc c) ?d" by auto
        from clt have c': "Suc c \<le> ?L" by simp
        show ?thesis
        proof (cases n)
          case 0
          with clt x show ?thesis unfolding ti by simp
        next
          case (Suc m)
          with Cons.prems(5) have "m < length (task_items i (fst (merge_loop_double probs ds its' us)))"
            unfolding ti by simp
          from Cons.IH [OF us0 i' nxt c' this] Suc show ?thesis unfolding ti by simp
        qed
      next
        case False
        with Cons.prems(4) have ceq: "c = ?L" by simp
        with upd True Cons.prems(3) Cons.prems(2)
        have x: "x = hd ?d" and nxt': "its' ! i = tl ?d" by auto
        from dne have x0: "x = ?d ! 0" using x by (simp add: hd_conv_nth)
        have nxt: "its' ! i = drop 1 ?d" using nxt' by (simp add: drop_Suc)
        from dne have c': "1 \<le> ?L" by (cases "ds ! i") simp_all
        show ?thesis
        proof (cases n)
          case 0
          with ceq x0 show ?thesis unfolding ti by simp
        next
          case (Suc m)
          with Cons.prems(5) have "m < length (task_items i (fst (merge_loop_double probs ds its' us)))"
            unfolding ti by simp
          from Cons.IH [OF us0 i' nxt c' this]
          have "task_items i (fst (merge_loop_double probs ds its' us)) ! m = ?d ! ((1 + m) mod ?L)" .
          moreover have "(c + Suc m) mod ?L = (1 + m) mod ?L"
          proof -
            have "(?L + (1 + m)) mod ?L = (1 + m) mod ?L" by (rule mod_add_self1)
            then show ?thesis using ceq by (simp only: add_Suc_right plus_1_eq_Suc)
          qed
          ultimately show ?thesis using Suc unfolding ti by simp
        qed
      qed
    qed
  qed
qed

lemma merge_loop_double_no_probs:
  "task_items i (fst (merge_loop_double [] ds its us)) = []"
proof -
  have "\<forall>y\<in>set (fst (merge_loop_double [] ds its us)). fst y \<noteq> int i"
  proof
    fix y assume "y \<in> set (fst (merge_loop_double [] ds its us))"
    from merge_loop_double_index [OF this refl] obtain u where "fst y = select_task_double [] u" by blast
    then show "fst y \<noteq> int i" by (simp add: select_task_double_Nil)
  qed
  then show ?thesis by (simp add: task_items_def filter_empty_conv)
qed

lemma merge_dataset_double_cycle:
  assumes ne: "\<forall>d\<in>set dataset_list. d \<noteq> []" and us0: "\<forall>u\<in>set us. 0 \<le> u"
      and i: "i < length dataset_list"
      and n: "n < length (task_items i (fst (merge_dataset_double pow dataset_list dataset_size task_ratio us)))"
  shows "task_items i (fst (merge_dataset_double pow dataset_list dataset_size task_ratio us)) ! n
           = dataset_list ! i ! (n mod length (dataset_list ! i))"
proof (cases "merge_probs_double pow dataset_size task_ratio")
  case (Inl e)
  with n show ?thesis by (simp add: merge_dataset_double_def task_items_def split: if_splits)
next
  case (Inr probs)
  show ?thesis
  proof (cases "us = []")
    case True
    with n show ?thesis by (simp add: merge_dataset_double_def task_items_def)
  next
    case False
    with Inr have md: "merge_dataset_double pow dataset_list dataset_size task_ratio us
        = merge_loop_double probs dataset_list dataset_list us"
      by (simp add: merge_dataset_double_def)
    show ?thesis
    proof (cases "probs = []")
      case True
      with n md show ?thesis by (simp add: merge_loop_double_no_probs)
    next
      case pne: False
      from ne i have dne: "dataset_list ! i \<noteq> []" by simp
      from n have n': "n < length (task_items i (fst (merge_loop_double probs dataset_list dataset_list us)))"
        by (simp only: md)
      have "task_items i (fst (merge_loop_double probs dataset_list dataset_list us)) ! n
           = dataset_list ! i ! ((0 + n) mod length (dataset_list ! i))"
        by (rule merge_loop_double_cycle [OF pne dne us0 i _ _ n']) simp_all
      then show ?thesis by (simp add: md)
    qed
  qed
qed

lemma merge_dataset_double_index:
  assumes "dataset_list \<noteq> []" and "\<forall>u\<in>set us. 0 \<le> u"
      and "length dataset_size = length dataset_list"
  shows "\<forall>y\<in>set (fst (merge_dataset_double pow dataset_list dataset_size task_ratio us)).
           0 \<le> fst y \<and> fst y < int (length dataset_list)"
proof (cases "merge_probs_double pow dataset_size task_ratio")
  case (Inl e)
  then show ?thesis by (simp add: merge_dataset_double_def)
next
  case (Inr ps)
  from merge_probs_double_length [OF Inr] assms(3)
  have len: "length ps = length dataset_list" by simp
  with assms(1) have pne: "ps \<noteq> []" by auto
  have "\<forall>y\<in>set (fst (merge_loop_double ps dataset_list dataset_list us)).
           0 \<le> fst y \<and> fst y < int (length dataset_list)"
  proof
    fix y assume "y \<in> set (fst (merge_loop_double ps dataset_list dataset_list us))"
    from merge_loop_double_index [OF this refl] obtain u where
      u: "u \<in> set us" and y: "fst y = select_task_double ps u" by blast
    from u assms(2) have "0 \<le> u" by simp
    from select_task_double_range [OF pne this] y len
    show "0 \<le> fst y \<and> fst y < int (length dataset_list)" by simp
  qed
  with Inr show ?thesis by (simp add: merge_dataset_double_def)
qed

lemmas merge_eval =
  merge_dataset_def merge_probs_def py_truediv_def py_pow_def merge_step_def next_item_def
  py_index_def select_task_def scan_loop.simps

text \<open>The vector the code computes for the sizes \<open>[1, 5, 3]\<close> and the exponent \<open>1\<close>.\<close>

lemma merge_probs_double_example:
  "merge_probs_double libm_pow [1, 5, 3] 1
     = Inr [Finite (2001599834386887 / 2 ^ 54), Finite (2501999792983609 / 2 ^ 52),
            Finite (6004799503160661 / 2 ^ 54)]"
  by (simp add: double_eval rnd_small)

lemma select_task_double_example:
  "select_task_double [Finite (2001599834386887 / 2 ^ 54), Finite (2501999792983609 / 2 ^ 52),
            Finite (6004799503160661 / 2 ^ 54)] (6004799503160661 / 2 ^ 53) = 2"
  by (simp add: double_eval rnd_small)

text \<open>
  C2, as stated for the loop the code runs, fails in double precision. For the sizes
  \<open>[1, 5, 3]\<close> and the exponent \<open>1\<close> the code computes the vector \<open>p\<close> above; the draw
  \<open>u = 6004799503160661 / 2\<^sup>5\<^sup>3\<close>, a value \<^verbatim>\<open>random.random()\<close> can return, lies in
  the interval \<open>[p\<^sub>0, p\<^sub>0 + p\<^sub>1)\<close> of index \<open>1\<close>, yet the loop selects index \<open>2\<close>: the
  subtraction \<^verbatim>\<open>r -= probs[0]\<close> rounds up to a remainder equal to \<open>p\<^sub>1\<close>, so the
  next remainder is \<open>0\<close>, which is not negative, and the loop runs once more.
\<close>

theorem select_task_double_rounding:
  "merge_probs_double libm_pow [1, 5, 3] 1
     = Inr [Finite (2001599834386887 / 2 ^ 54), Finite (2501999792983609 / 2 ^ 52),
            Finite (6004799503160661 / 2 ^ 54)]
   \<and> select_task_double
       [Finite (2001599834386887 / 2 ^ 54), Finite (2501999792983609 / 2 ^ 52),
        Finite (6004799503160661 / 2 ^ 54)] (6004799503160661 / 2 ^ 53) = 2
   \<and> (0 :: real) \<le> 6004799503160661 / 2 ^ 53 \<and> (6004799503160661 / 2 ^ 53 :: real) < 1
   \<and> (2001599834386887 / 2 ^ 54 :: real) \<le> 6004799503160661 / 2 ^ 53
   \<and> (6004799503160661 / 2 ^ 53 :: real) < 2001599834386887 / 2 ^ 54 + 2501999792983609 / 2 ^ 52"
  by (intro conjI merge_probs_double_example select_task_double_example) simp_all

text \<open>
  C2, amended: for a non-empty list of sizes and a draw \<open>0 \<le> u < 1\<close>. Over exact
  arithmetic, that is with every subtraction of the scan unrounded, for the probability
  vector \<open>p\<close> computed by \<^verbatim>\<open>merge_dataset\<close> the scan selects the index \<open>i\<close> whose
  cumulative interval \<open>[p\<^sub>0 + \<dots> + p\<^bsub>i-1\<^esub>, p\<^sub>0 + \<dots> + p\<^sub>i)\<close> contains \<open>u\<close>, which is the
  least \<open>i\<close> with \<open>u < p\<^sub>0 + \<dots> + p\<^sub>i\<close>. In double precision, when the vector the code
  computes consists of finite numbers between zero and one, the scan selects an index
  \<open>i\<close> in range whose cumulative interval contains \<open>u\<close> up to the rounding of the
  subtractions made: \<open>p\<^sub>0 + \<dots> + p\<^bsub>i-1\<^esub> \<le> u + i \<cdot> 2\<^bsup>-53\<^esup>\<close>, and
  \<open>u < p\<^sub>0 + \<dots> + p\<^sub>i + (i + 1) \<cdot> 2\<^bsup>-53\<^esup>\<close> unless \<open>i\<close> is the last index.
\<close>

theorem select_task_cumulative:
  assumes "dataset_size \<noteq> []" and "0 \<le> u" and "u < 1"
  shows "(merge_probs dataset_size task_ratio = Inr probs \<longrightarrow>
            (\<exists>i<length probs. select_task probs u = int i
               \<and> sum_list (take i probs) \<le> u \<and> u < sum_list (take (Suc i) probs)
               \<and> i = (LEAST i. u < sum_list (take (Suc i) probs))))
       \<and> (merge_probs_double pow dataset_size task_ratio = Inr (map Finite ps) \<longrightarrow>
            (\<forall>p\<in>set ps. 0 \<le> p \<and> p \<le> 1) \<longrightarrow>
            (\<exists>i<length ps. select_task_double (map Finite ps) u = int i
               \<and> sum_list (take i ps) \<le> u + real i * 2 powi (- 53)
               \<and> (Suc i = length ps
                    \<or> u < sum_list (take (Suc i) ps) + real (Suc i) * 2 powi (- 53))))"
proof (intro conjI impI)
  assume "merge_probs dataset_size task_ratio = Inr probs"
  from this assms show "\<exists>i<length probs. select_task probs u = int i
               \<and> sum_list (take i probs) \<le> u \<and> u < sum_list (take (Suc i) probs)
               \<and> i = (LEAST i. u < sum_list (take (Suc i) probs))"
    by (rule select_task_least)
next
  assume p: "merge_probs_double pow dataset_size task_ratio = Inr (map Finite ps)"
    and r: "\<forall>p\<in>set ps. 0 \<le> p \<and> p \<le> 1"
  from merge_probs_double_length [OF p] assms(1) have "ps \<noteq> []" by auto
  from r this assms(2,3)
  show "\<exists>i<length ps. select_task_double (map Finite ps) u = int i
               \<and> sum_list (take i ps) \<le> u + real i * 2 powi (- 53)
               \<and> (Suc i = length ps
                    \<or> u < sum_list (take (Suc i) ps) + real (Suc i) * 2 powi (- 53))"
    by (rule select_task_double_tolerance)
qed

theorem select_task_cumulative_witness:
  "(\<exists>i<length [1 / 4, 3 / 4 :: real]. select_task [1 / 4, 3 / 4] (1 / 2) = int i
      \<and> sum_list (take i [1 / 4, 3 / 4]) \<le> (1 / 2 :: real)
      \<and> (1 / 2 :: real) < sum_list (take (Suc i) [1 / 4, 3 / 4])
      \<and> i = (LEAST i. (1 / 2 :: real) < sum_list (take (Suc i) [1 / 4, 3 / 4])))
   \<and> (\<exists>i<length [1 / 4, 3 / 4 :: real].
        select_task_double (map Finite [1 / 4, 3 / 4]) (1 / 2) = int i
      \<and> sum_list (take i [1 / 4, 3 / 4]) \<le> (1 / 2 :: real) + real i * 2 powi (- 53)
      \<and> (Suc i = length [1 / 4, 3 / 4 :: real]
           \<or> (1 / 2 :: real) < sum_list (take (Suc i) [1 / 4, 3 / 4])
                 + real (Suc i) * 2 powi (- 53)))"
proof -
  have p: "merge_probs [1, 3] 1 = Inr [1 / 4, 3 / 4]"
    by (simp add: merge_probs_def py_truediv_def py_pow_def)
  have d: "merge_probs_double libm_pow [1, 3] 1 = Inr (map Finite [1 / 4, 3 / 4])"
    by (simp add: double_eval rnd_small)
  have r: "\<forall>p\<in>set [1 / 4, 3 / 4 :: real]. 0 \<le> p \<and> p \<le> 1" by simp
  have "[1, 3 :: nat] \<noteq> []" "(0 :: real) \<le> 1 / 2" "(1 / 2 :: real) < 1" by simp_all
  note T = select_task_cumulative [OF this, where task_ratio = 1 and probs = "[1 / 4, 3 / 4]"
      and pow = libm_pow and ps = "[1 / 4, 3 / 4]"]
  from T [THEN conjunct1, rule_format, OF p] T [THEN conjunct2, rule_format, OF d r [rule_format]]
  show ?thesis by (rule conjI)
qed



text \<open>
  C3, as stated for every list of task datasets, fails when a dataset is empty: with a
  first task of no items, a second task of one item and exponent \<open>0\<close> both tasks have
  probability \<open>1/2\<close>; the draw \<open>1/4\<close> selects the empty task, the restarted iterator is
  exhausted again, and the generator ends with an exception before it yields a pair.
\<close>

theorem merge_dataset_empty_task_raises:
  "merge_dataset [[], [7 :: nat]] [0, 1] 0 [1 / 4] = ([], Some RuntimeError)"
  by (simp add: merge_eval)

lemma merge_probs_double_two_one: "merge_probs_double libm_pow [2, 1] 1
   = Inr [Finite (6004799503160661 / 2 ^ 53), Finite (6004799503160661 / 2 ^ 54)]"
  by (simp add: double_eval rnd_small)

text \<open>
  C3, amended: for a non-empty list of non-empty datasets, with one size per dataset, for
  which the probability vector is computed without an exception, the generator (in
  double precision, whatever the C library's \<^verbatim>\<open>pow\<close>) yields a pair for every draw and
  never raises, whatever the draws; and whenever the selected iterator is exhausted, the
  round restarts it and yields the first item of its dataset. The vector is computed
  without an exception for the sizes \<open>[2, 1]\<close> and the exponent \<open>1\<close>; it is not when the
  sizes sum to zero, when every power underflows to zero (sizes \<open>[1, 1]\<close>, exponent
  \<open>2000\<close>) or when a power overflows.
\<close>

theorem merge_dataset_never_ends:
  assumes "dataset_list \<noteq> []" and "\<forall>d\<in>set dataset_list. d \<noteq> []"
      and "length dataset_size = length dataset_list"
      and "merge_probs_double pow dataset_size task_ratio = Inr probs"
  shows "(\<exists>ys. merge_dataset_double pow dataset_list dataset_size task_ratio us = (ys, None)
              \<and> length ys = length us)
       \<and> (\<forall>iterators u j.
            length iterators = length dataset_list \<longrightarrow>
            py_index (length iterators) (select_task_double probs u) = Some j \<longrightarrow>
            iterators ! j = [] \<longrightarrow>
            merge_step_double probs dataset_list iterators u
              = Inr ((select_task_double probs u, hd (dataset_list ! j)),
                     iterators[j := tl (dataset_list ! j)]))"
proof
  from merge_probs_double_length [OF assms(4)] assms(3)
  have lp: "length probs = length dataset_list" by simp
  from merge_loop_double_total [OF assms(2) assms(1) lp refl, of us] assms(4)
  show "\<exists>ys. merge_dataset_double pow dataset_list dataset_size task_ratio us = (ys, None)
              \<and> length ys = length us"
    by (auto simp: merge_dataset_double_def)
next
  show "\<forall>iterators u j.
            length iterators = length dataset_list \<longrightarrow>
            py_index (length iterators) (select_task_double probs u) = Some j \<longrightarrow>
            iterators ! j = [] \<longrightarrow>
            merge_step_double probs dataset_list iterators u
              = Inr ((select_task_double probs u, hd (dataset_list ! j)),
                     iterators[j := tl (dataset_list ! j)])"
  proof (intro allI impI)
    fix iterators :: "'a list list" and u j
    assume len: "length iterators = length dataset_list"
      and idx: "py_index (length iterators) (select_task_double probs u) = Some j"
      and ex: "iterators ! j = []"
    from py_index_range [OF idx] len have "j < length dataset_list" by simp
    with assms(2) have "dataset_list ! j \<noteq> []" by simp
    from merge_step_double_restart [OF idx ex this]
    show "merge_step_double probs dataset_list iterators u
              = Inr ((select_task_double probs u, hd (dataset_list ! j)),
                     iterators[j := tl (dataset_list ! j)])" .
  qed
qed

theorem merge_dataset_never_ends_witness:
  "(\<exists>ys. merge_dataset_double libm_pow [[10, 11], [20 :: nat]] [2, 1] 1 [0, 0, 0] = (ys, None)
         \<and> length ys = length [0, 0, 0 :: real])
   \<and> merge_step_double [Finite (6004799503160661 / 2 ^ 53), Finite (6004799503160661 / 2 ^ 54)]
        [[10, 11], [20 :: nat]] [[], [20]] 0
       = Inr ((0, 10), [[11], [20]])"
proof -
  let ?p = "[Finite (6004799503160661 / 2 ^ 53), Finite (6004799503160661 / 2 ^ 54)]"
  have s: "select_task_double ?p 0 = 0"
    by (simp add: select_task_double_def scan_loop_double.simps fsub_def rnd_small)
  have i: "py_index (length [[], [20 :: nat]]) (select_task_double ?p 0) = Some 0"
    by (simp only: s) (simp add: py_index_def)
  have never: "(\<exists>ys. merge_dataset_double libm_pow [[10, 11], [20 :: nat]] [2, 1] 1 [0, 0, 0]
                   = (ys, None) \<and> length ys = length [0, 0, 0 :: real])
     \<and> (\<forall>iterators u j.
            length iterators = length [[10, 11], [20 :: nat]] \<longrightarrow>
            py_index (length iterators) (select_task_double ?p u) = Some j \<longrightarrow>
            iterators ! j = [] \<longrightarrow>
            merge_step_double ?p [[10, 11], [20 :: nat]] iterators u
              = Inr ((select_task_double ?p u, hd ([[10, 11], [20 :: nat]] ! j)),
                     iterators[j := tl ([[10, 11], [20 :: nat]] ! j)]))"
    by (rule merge_dataset_never_ends [OF _ _ _ merge_probs_double_two_one]) simp_all
  from never have restart: "\<forall>iterators u j.
            length iterators = length [[10, 11], [20 :: nat]] \<longrightarrow>
            py_index (length iterators) (select_task_double ?p u) = Some j \<longrightarrow>
            iterators ! j = [] \<longrightarrow>
            merge_step_double ?p [[10, 11], [20 :: nat]] iterators u
              = Inr ((select_task_double ?p u, hd ([[10, 11], [20 :: nat]] ! j)),
                     iterators[j := tl ([[10, 11], [20 :: nat]] ! j)])"
    by (rule conjunct2)
  have "merge_step_double ?p [[10, 11], [20 :: nat]] [[], [20]] 0
      = Inr ((select_task_double ?p 0, hd ([[10, 11], [20 :: nat]] ! 0)),
             [[], [20]][0 := tl ([[10, 11], [20 :: nat]] ! 0)])"
    by (rule restart [rule_format, OF _ i]) simp_all
  then have "merge_step_double ?p [[10, 11], [20 :: nat]] [[], [20]] 0
       = Inr ((0, 10), [[11], [20]])"
    by (simp only: s) simp
  with never show ?thesis by (simp only: simp_thms)
qed



subsection \<open>The checks of \<^verbatim>\<open>main\<close>\<close>

lemma check_output_dir_raises:
  "check_output_dir e a = Inl (ValueError (output_dir_message (output_dir a))) \<longleftrightarrow>
     (\<exists>entries. fs e (output_dir a) = Some (Dir entries) \<and> entries \<noteq> [])
       \<and> do_train a \<and> \<not> overwrite_output_dir a"
  by (auto simp: check_output_dir_def os_path_exists_def os_listdir_def
           split: option.splits node.splits)

lemma check_output_dir_not_assertion: "check_output_dir e a \<noteq> Inl AssertionError"
  by (auto simp: check_output_dir_def os_path_exists_def os_listdir_def
           split: option.splits node.splits)

lemma message_differs: "task_not_found_message t \<noteq> output_dir_message d"
  by (simp add: output_dir_message_def task_not_found_message_def)

lemma after_assert_errors:
  "after_assert e a \<noteq> Inl AssertionError
   \<and> after_assert e a \<noteq> Inl (ValueError (output_dir_message d))"
  by (auto simp: after_assert_def derive_logging_steps_def check_task_name_def Let_def
                 message_differs split: sum.splits if_splits)

lemma logging_fields_kept:
  "logging_steps (preprocess_args (setup_devices e a)) = logging_steps a
   \<and> logging_steps_in_sample (preprocess_args (setup_devices e a)) = logging_steps_in_sample a"
  by (simp add: preprocess_args_def setup_devices_def)

lemma main_after_check:
  "check_output_dir e a = Inr () \<Longrightarrow>
   main e a =
     (if logging_steps a \<noteq> - 1 \<and> logging_steps_in_sample a \<noteq> - 1 then Inl AssertionError
      else after_assert e (preprocess_args (setup_devices e a)))"
  by (simp add: main_def assert_logging_steps_def logging_fields_kept Let_def)

lemma main_check_failed: "check_output_dir e a = Inl err \<Longrightarrow> main e a = Inl err"
  by (simp add: main_def)

text \<open>
  C7: \<^verbatim>\<open>main\<close> raises the \<^verbatim>\<open>ValueError\<close> about the output directory if and only if
  the output directory exists and is not empty, \<^verbatim>\<open>do_train\<close> is set and
  \<^verbatim>\<open>overwrite_output_dir\<close> is not; the error then comes from the first check, so that
  nothing after it runs. (The later \<^verbatim>\<open>ValueError\<close> of \<^verbatim>\<open>main\<close>, for an unknown task,
  carries another message.)
\<close>

theorem main_output_dir_error:
  "(main e a = Inl (ValueError (output_dir_message (output_dir a))) \<longleftrightarrow>
      (\<exists>entries. fs e (output_dir a) = Some (Dir entries) \<and> entries \<noteq> [])
        \<and> do_train a \<and> \<not> overwrite_output_dir a)
   \<and> (main e a = Inl (ValueError (output_dir_message (output_dir a))) \<longrightarrow>
        check_output_dir e a = Inl (ValueError (output_dir_message (output_dir a))))"
proof -
  have "main e a = Inl (ValueError (output_dir_message (output_dir a))) \<longleftrightarrow>
        check_output_dir e a = Inl (ValueError (output_dir_message (output_dir a)))"
  proof (cases "check_output_dir e a")
    case (Inl err)
    then show ?thesis by (simp add: main_check_failed)
  next
    case (Inr u)
    then have "check_output_dir e a = Inr ()" by simp
    from main_after_check [OF this] after_assert_errors [of e _ "output_dir a"] Inr
    show ?thesis by (simp split: if_splits)
  qed
  then show ?thesis by (simp add: check_output_dir_raises)
qed

theorem main_output_dir_error_witness:
  "main env_used args_train = Inl (ValueError (output_dir_message ''out''))
   \<and> check_output_dir env_used args_train = Inl (ValueError (output_dir_message ''out''))"
  using main_output_dir_error [of env_used args_train]
  by (simp add: env_used_def env_fresh_def args_train_def default_args_def)

text \<open>
  C8, as stated, fails when the check of the output directory raises first: with a
  non-empty output directory, \<^verbatim>\<open>do_train\<close> and no \<^verbatim>\<open>overwrite_output_dir\<close>, both
  logging options differ from \<open>-1\<close> and \<^verbatim>\<open>main\<close> raises the \<^verbatim>\<open>ValueError\<close>, not the
  assertion failure.
\<close>

theorem main_assertion_preceded:
  "main env_used args_both = Inl (ValueError (output_dir_message ''out''))
   \<and> logging_steps args_both \<noteq> - 1 \<and> logging_steps_in_sample args_both \<noteq> - 1
   \<and> \<not> (main env_used args_both = Inl AssertionError \<longleftrightarrow>
          logging_steps args_both \<noteq> - 1 \<and> logging_steps_in_sample args_both \<noteq> - 1)"
  by (simp add: main_def check_output_dir_def os_path_exists_def os_listdir_def
        env_used_def env_fresh_def args_both_def args_train_def default_args_def)

text \<open>
  C8, amended: \<^verbatim>\<open>main\<close> raises the assertion failure exactly when the check of the
  output directory has passed and both \<^verbatim>\<open>logging_steps\<close> and
  \<^verbatim>\<open>logging_steps_in_sample\<close> differ from \<open>-1\<close>; when the check has passed and they do not
  both differ from \<open>-1\<close>, \<^verbatim>\<open>main\<close> continues with the statements after the assertion.
  The defaults are \<open>50\<close> and \<open>-1\<close>.
\<close>

theorem main_logging_assertion:
  "(main e a = Inl AssertionError \<longleftrightarrow>
      check_output_dir e a = Inr ()
        \<and> logging_steps a \<noteq> - 1 \<and> logging_steps_in_sample a \<noteq> - 1)
   \<and> (check_output_dir e a = Inr () \<longrightarrow>
        \<not> (logging_steps a \<noteq> - 1 \<and> logging_steps_in_sample a \<noteq> - 1) \<longrightarrow>
        main e a = after_assert e (preprocess_args (setup_devices e a)))
   \<and> logging_steps (default_args out lang task) = 50
   \<and> logging_steps_in_sample (default_args out lang task) = - 1"
proof -
  have "main e a = Inl AssertionError \<longleftrightarrow>
      check_output_dir e a = Inr ()
        \<and> logging_steps a \<noteq> - 1 \<and> logging_steps_in_sample a \<noteq> - 1"
  proof (cases "check_output_dir e a")
    case (Inl err)
    with check_output_dir_not_assertion [of e a] show ?thesis
      by (auto simp: main_check_failed)
  next
    case (Inr u)
    then have ok: "check_output_dir e a = Inr ()" by simp
    from main_after_check [OF ok] after_assert_errors [of e _ "output_dir a"] ok
    show ?thesis by (simp split: if_splits)
  qed
  moreover have "check_output_dir e a = Inr () \<longrightarrow>
        \<not> (logging_steps a \<noteq> - 1 \<and> logging_steps_in_sample a \<noteq> - 1) \<longrightarrow>
        main e a = after_assert e (preprocess_args (setup_devices e a))"
    using main_after_check [of e a] by auto
  ultimately show ?thesis by (simp add: default_args_def)
qed

theorem main_logging_assertion_witness:
  "main env_fresh args_both = Inl AssertionError
   \<and> main env_fresh args_train
       = after_assert env_fresh (preprocess_args (setup_devices env_fresh args_train))"
  using main_logging_assertion [of env_fresh args_both]
        main_logging_assertion [of env_fresh args_train]
  by (simp add: check_output_dir_def os_path_exists_def env_fresh_def args_both_def
        args_train_def default_args_def)

lemma main_defaults_continue:
  "main env_fresh args_train = Inr (args_train\<lparr> n_gpu := 1, train_language := Some ''en'' \<rparr>)"
  by (simp add: main_def check_output_dir_def os_path_exists_def env_fresh_def
        args_train_def default_args_def setup_devices_def preprocess_args_def
        assert_logging_steps_def after_assert_def derive_logging_steps_def check_task_name_def)

subsection \<open>Averaging result dictionaries\<close>

lemma keys_update: "keys (AList.update k v d) = insert k (keys d)"
  by (simp add: keys_def dom_update)

lemma keys_map_of: "k \<in> keys d \<longleftrightarrow> map_of d k \<noteq> None"
  by (simp add: keys_def map_of_eq_None_iff)

lemma keys_empty: "keys d = {} \<longleftrightarrow> d = []"
  by (simp add: keys_def)

lemma store_items_frame:
  "length (store_items s kvs h) = length h \<and> (\<forall>a. a \<noteq> s \<longrightarrow> store_items s kvs h ! a = h ! a)"
  by (induction s kvs h rule: store_items.induct) simp_all

lemma store_items_at:
  "s < length h \<Longrightarrow> distinct (map fst kvs) \<Longrightarrow> distinct (map fst (h ! s)) \<Longrightarrow>
     distinct (map fst (store_items s kvs h ! s))
     \<and> map_of (store_items s kvs h ! s) = map_of (h ! s) ++ map_of kvs"
proof (induction s kvs h rule: store_items.induct)
  case (1 s h)
  then show ?case by simp
next
  case (2 s key val kvs h)
  let ?h1 = "h[s := AList.update key val (h ! s)]"
  from "2.prems" have s1: "s < length ?h1" and d1: "distinct (map fst kvs)"
    and d2: "distinct (map fst (?h1 ! s))" and fresh: "key \<notin> fst ` set kvs"
    by (simp_all add: distinct_update)
  from "2.IH" [OF s1 d1 d2]
  have dist: "distinct (map fst (store_items s kvs ?h1 ! s))"
    and m: "map_of (store_items s kvs ?h1 ! s) = map_of (?h1 ! s) ++ map_of kvs" by simp_all
  from fresh have none: "map_of kvs key = None" by (simp add: map_of_eq_None_iff)
  have mh1: "map_of (?h1 ! s) = (map_of (h ! s))(key \<mapsto> val)"
    using "2.prems"(1) by (simp add: update_conv')
  have e: "map_of (?h1 ! s) ++ map_of kvs = map_of (h ! s) ++ map_of ((key, val) # kvs)"
  proof
    fix k
    show "(map_of (?h1 ! s) ++ map_of kvs) k = (map_of (h ! s) ++ map_of ((key, val) # kvs)) k"
      unfolding mh1 using none
      by (cases "k = key") (simp_all add: map_add_def split: option.splits)
  qed
  have "map_of (store_items s kvs ?h1 ! s) = map_of (h ! s) ++ map_of ((key, val) # kvs)"
    using m e by (rule trans)
  with dist show ?case unfolding store_items.simps by (intro conjI)
qed

lemma add_items_ok:
  "s < length h \<Longrightarrow> distinct (map fst kvs) \<Longrightarrow> distinct (map fst (h ! s)) \<Longrightarrow>
   keys kvs \<subseteq> keys (h ! s) \<Longrightarrow>
   \<exists>h'. add_items s kvs h = Inr h' \<and> length h' = length h
      \<and> (\<forall>a. a \<noteq> s \<longrightarrow> h' ! a = h ! a)
      \<and> distinct (map fst (h' ! s)) \<and> keys (h' ! s) = keys (h ! s)
      \<and> (\<forall>k. map_of (h' ! s) k =
            (case map_of kvs k of
               None \<Rightarrow> map_of (h ! s) k
             | Some v \<Rightarrow> Some (the (map_of (h ! s) k) + v)))"
proof (induction s kvs h rule: add_items.induct)
  case (1 s h)
  then show ?case by simp
next
  case (2 s key val kvs h)
  from "2.prems"(4) have "key \<in> keys (h ! s)" by (simp add: keys_def)
  then obtain old where old: "map_of (h ! s) key = Some old"
    by (auto simp: keys_map_of)
  let ?h1 = "h[s := AList.update key (old + val) (h ! s)]"
  have at1: "?h1 ! s = AList.update key (old + val) (h ! s)" using "2.prems"(1) by simp
  have k1: "keys (?h1 ! s) = keys (h ! s)"
    using \<open>key \<in> keys (h ! s)\<close> by (auto simp: at1 keys_update)
  from "2.prems" have s1: "s < length ?h1" and d1: "distinct (map fst kvs)"
    and fresh: "key \<notin> fst ` set kvs" by simp_all
  have d2: "distinct (map fst (?h1 ! s))"
    using "2.prems"(3) by (simp add: at1 distinct_update)
  have "keys kvs \<subseteq> keys (h ! s)" using "2.prems"(4) by (auto simp: keys_def)
  then have sub: "keys kvs \<subseteq> keys (?h1 ! s)" by (simp only: k1)
  from "2.IH" [OF old s1 d1 d2 sub] obtain h' where
    r: "add_items s kvs ?h1 = Inr h'" and len: "length h' = length ?h1"
    and fr: "\<forall>a. a \<noteq> s \<longrightarrow> h' ! a = ?h1 ! a"
    and dist: "distinct (map fst (h' ! s))" and ks: "keys (h' ! s) = keys (?h1 ! s)"
    and m: "\<forall>k. map_of (h' ! s) k =
            (case map_of kvs k of
               None \<Rightarrow> map_of (?h1 ! s) k
             | Some v \<Rightarrow> Some (the (map_of (?h1 ! s) k) + v))"
    by blast
  from fresh have none: "map_of kvs key = None" by (simp add: map_of_eq_None_iff)
  have mh1: "map_of (?h1 ! s) = (map_of (h ! s))(key \<mapsto> old + val)"
    by (simp add: at1 update_conv')
  note m = m [unfolded mh1]
  have m': "\<forall>k. map_of (h' ! s) k =
            (case map_of ((key, val) # kvs) k of
               None \<Rightarrow> map_of (h ! s) k
             | Some v \<Rightarrow> Some (the (map_of (h ! s) k) + v))"
  proof
    fix k
    show "map_of (h' ! s) k =
            (case map_of ((key, val) # kvs) k of
               None \<Rightarrow> map_of (h ! s) k
             | Some v \<Rightarrow> Some (the (map_of (h ! s) k) + v))"
    proof (cases "k = key")
      case True
      with m [rule_format, of k] none old show ?thesis by simp
    next
      case False
      with m [rule_format, of k] show ?thesis by (simp split: option.splits)
    qed
  qed
  have "add_items s ((key, val) # kvs) h = Inr h'" using old r by simp
  moreover have "length h' = length h" using len by simp
  moreover have "\<forall>a. a \<noteq> s \<longrightarrow> h' ! a = h ! a" using fr by simp
  moreover have "keys (h' ! s) = keys (h ! s)" using ks k1 by simp
  ultimately show ?case using dist m' by blast
qed

lemma divide_items_ok:
  "s < length h \<Longrightarrow> n \<noteq> 0 \<Longrightarrow> distinct ks \<Longrightarrow> set ks \<subseteq> keys (h ! s) \<Longrightarrow>
   \<exists>h'. divide_items s n ks h = Inr h' \<and> length h' = length h
      \<and> (\<forall>a. a \<noteq> s \<longrightarrow> h' ! a = h ! a)
      \<and> keys (h' ! s) = keys (h ! s)
      \<and> (\<forall>k. map_of (h' ! s) k =
            (if k \<in> set ks then Some (the (map_of (h ! s) k) / n) else map_of (h ! s) k))"
proof (induction s n ks h rule: divide_items.induct)
  case (1 s n h)
  then show ?case by simp
next
  case (2 s n key ks h)
  from "2.prems"(4) have kin: "key \<in> keys (h ! s)" by simp
  then obtain v where v: "map_of (h ! s) key = Some v" by (auto simp: keys_map_of)
  have q: "py_truediv v n = Inr (v / n)" using "2.prems"(2) by (simp add: py_truediv_def)
  let ?h1 = "h[s := AList.update key (v / n) (h ! s)]"
  have at1: "?h1 ! s = AList.update key (v / n) (h ! s)" using "2.prems"(1) by simp
  have k1: "keys (?h1 ! s) = keys (h ! s)" using kin by (auto simp: at1 keys_update)
  from "2.prems" have s1: "s < length ?h1" and d1: "distinct ks" and fresh: "key \<notin> set ks"
    by simp_all
  have "set ks \<subseteq> keys (h ! s)" using "2.prems"(4) by auto
  then have sub: "set ks \<subseteq> keys (?h1 ! s)" by (simp only: k1)
  from "2.IH" [OF v q s1 "2.prems"(2) d1 sub] obtain h' where
    r: "divide_items s n ks ?h1 = Inr h'" and len: "length h' = length ?h1"
    and fr: "\<forall>a. a \<noteq> s \<longrightarrow> h' ! a = ?h1 ! a"
    and ks: "keys (h' ! s) = keys (?h1 ! s)"
    and m: "\<forall>k. map_of (h' ! s) k =
            (if k \<in> set ks then Some (the (map_of (?h1 ! s) k) / n) else map_of (?h1 ! s) k)"
    by blast
  have mh1: "map_of (?h1 ! s) = (map_of (h ! s))(key \<mapsto> v / n)"
    by (simp add: at1 update_conv')
  note m = m [unfolded mh1]
  have m': "\<forall>k. map_of (h' ! s) k =
            (if k \<in> set (key # ks) then Some (the (map_of (h ! s) k) / n) else map_of (h ! s) k)"
  proof
    fix k
    show "map_of (h' ! s) k =
            (if k \<in> set (key # ks) then Some (the (map_of (h ! s) k) / n) else map_of (h ! s) k)"
    proof (cases "k = key")
      case True
      with m [rule_format, of k] fresh v show ?thesis by simp
    next
      case False
      with m [rule_format, of k] show ?thesis by simp
    qed
  qed
  have "divide_items s n (key # ks) h = Inr h'" using v q r by simp
  moreover have "length h' = length h" using len by simp
  moreover have "\<forall>a. a \<noteq> s \<longrightarrow> h' ! a = h ! a" using fr by simp
  moreover have "keys (h' ! s) = keys (h ! s)" using ks k1 by simp
  ultimately show ?case using m' by blast
qed

lemma keys_dom: "keys d = dom (map_of d)"
  by (simp add: keys_def dom_map_of_conv_image_fst)

lemma map_of_keys: "k \<in> keys d \<Longrightarrow> map_of d k = Some (the (map_of d k))"
  by (auto simp: keys_dom)

lemma map_of_not_keys: "k \<notin> keys d \<Longrightarrow> map_of d k = None"
  by (auto simp: keys_dom)

lemma sum_loop_ok:
  "\<forall>a\<in>set ds. a < s \<and> distinct (map fst (h ! a)) \<and> keys (h ! a) = K \<Longrightarrow>
   s < length h \<Longrightarrow> distinct (map fst (h ! s)) \<Longrightarrow> h ! s = [] \<or> keys (h ! s) = K \<Longrightarrow>
   \<exists>h'. sum_loop s ds h = Inr h' \<and> length h' = length h
      \<and> (\<forall>a. a \<noteq> s \<longrightarrow> h' ! a = h ! a)
      \<and> distinct (map fst (h' ! s))
      \<and> (\<forall>k. map_of (h' ! s) k =
            (if ds = [] then map_of (h ! s) k
             else if k \<in> K
               then Some ((case map_of (h ! s) k of None \<Rightarrow> 0 | Some v \<Rightarrow> v)
                          + sum_list (map (\<lambda>a. the (map_of (h ! a) k)) ds))
               else None))"
proof (induction ds arbitrary: h)
  case Nil
  then show ?case by simp
next
  case (Cons a rest)
  from Cons.prems(1) have a: "a < s" "distinct (map fst (h ! a))" "keys (h ! a) = K"
    and rest: "\<forall>b\<in>set rest. b < s \<and> distinct (map fst (h ! b)) \<and> keys (h ! b) = K"
    by simp_all
  \<comment> \<open>the heap after the round for \<open>a\<close>, in both branches\<close>
  have "\<exists>h1. sum_loop s (a # rest) h = sum_loop s rest h1 \<and> length h1 = length h
      \<and> (\<forall>b. b \<noteq> s \<longrightarrow> h1 ! b = h ! b) \<and> distinct (map fst (h1 ! s))
      \<and> (\<forall>k. map_of (h1 ! s) k =
            (if k \<in> K then Some ((case map_of (h ! s) k of None \<Rightarrow> 0 | Some v \<Rightarrow> v)
                                  + the (map_of (h ! a) k))
             else None))"
  proof (cases "h ! s = []")
    case True
    let ?h1 = "store_items s (h ! a) h"
    have run: "sum_loop s (a # rest) h = sum_loop s rest ?h1" using True by simp
    from store_items_at [OF Cons.prems(2) a(2) Cons.prems(3)] True
    have d1: "distinct (map fst (?h1 ! s))" and m1: "map_of (?h1 ! s) = map_of (h ! a)"
      by simp_all
    have "\<forall>k. map_of (?h1 ! s) k =
            (if k \<in> K then Some ((case map_of (h ! s) k of None \<Rightarrow> 0 | Some v \<Rightarrow> v)
                                  + the (map_of (h ! a) k))
             else None)"
    proof
      fix k
      show "map_of (?h1 ! s) k =
            (if k \<in> K then Some ((case map_of (h ! s) k of None \<Rightarrow> 0 | Some v \<Rightarrow> v)
                                  + the (map_of (h ! a) k))
             else None)"
        using map_of_keys [of k "h ! a"] map_of_not_keys [of k "h ! a"] a(3) True
        by (simp add: m1)
    qed
    with run d1 store_items_frame [of s "h ! a" h] show ?thesis by blast
  next
    case False
    with Cons.prems(4) have ks: "keys (h ! s) = K" by simp
    from False have nz: "length (h ! s) \<noteq> 0" by simp
    have same: "set (map fst (h ! s)) = set (map fst (h ! a))"
      using ks a(3) by (simp add: keys_def)
    have sub: "keys (h ! a) \<subseteq> keys (h ! s)" using ks a(3) by simp
    from add_items_ok [OF Cons.prems(2) a(2) Cons.prems(3) sub] obtain h1 where
      r: "add_items s (h ! a) h = Inr h1" and len: "length h1 = length h"
      and fr: "\<forall>b. b \<noteq> s \<longrightarrow> h1 ! b = h ! b"
      and d1: "distinct (map fst (h1 ! s))"
      and m: "\<forall>k. map_of (h1 ! s) k =
            (case map_of (h ! a) k of
               None \<Rightarrow> map_of (h ! s) k
             | Some v \<Rightarrow> Some (the (map_of (h ! s) k) + v))"
      by blast
    have run: "sum_loop s (a # rest) h = sum_loop s rest h1"
      using nz same r by simp
    have "\<forall>k. map_of (h1 ! s) k =
            (if k \<in> K then Some ((case map_of (h ! s) k of None \<Rightarrow> 0 | Some v \<Rightarrow> v)
                                  + the (map_of (h ! a) k))
             else None)"
    proof
      fix k
      show "map_of (h1 ! s) k =
            (if k \<in> K then Some ((case map_of (h ! s) k of None \<Rightarrow> 0 | Some v \<Rightarrow> v)
                                  + the (map_of (h ! a) k))
             else None)"
      proof (cases "k \<in> K")
        case True
        with map_of_keys [of k "h ! a"] map_of_keys [of k "h ! s"] a(3) ks
        obtain v w where "map_of (h ! a) k = Some v" "map_of (h ! s) k = Some w" by auto
        with True m [rule_format, of k] show ?thesis by simp
      next
        case False
        with map_of_not_keys [of k "h ! a"] map_of_not_keys [of k "h ! s"] a(3) ks
        have "map_of (h ! a) k = None" "map_of (h ! s) k = None" by auto
        with False m [rule_format, of k] show ?thesis by simp
      qed
    qed
    with run len fr d1 show ?thesis by blast
  qed
  then obtain h1 where run: "sum_loop s (a # rest) h = sum_loop s rest h1"
    and len1: "length h1 = length h" and fr1: "\<forall>b. b \<noteq> s \<longrightarrow> h1 ! b = h ! b"
    and d1: "distinct (map fst (h1 ! s))"
    and m1: "\<forall>k. map_of (h1 ! s) k =
            (if k \<in> K then Some ((case map_of (h ! s) k of None \<Rightarrow> 0 | Some v \<Rightarrow> v)
                                  + the (map_of (h ! a) k))
             else None)"
    by blast
  have k1: "keys (h1 ! s) = K" using m1 by (auto simp: keys_dom dom_def)
  have rest1: "\<forall>b\<in>set rest. b < s \<and> distinct (map fst (h1 ! b)) \<and> keys (h1 ! b) = K"
    using rest fr1 by auto
  have s1: "s < length h1" using Cons.prems(2) len1 by simp
  from Cons.IH [OF rest1 s1 d1] k1 obtain h' where
    r': "sum_loop s rest h1 = Inr h'" and len': "length h' = length h1"
    and fr': "\<forall>b. b \<noteq> s \<longrightarrow> h' ! b = h1 ! b"
    and d': "distinct (map fst (h' ! s))"
    and m': "\<forall>k. map_of (h' ! s) k =
            (if rest = [] then map_of (h1 ! s) k
             else if k \<in> K
               then Some ((case map_of (h1 ! s) k of None \<Rightarrow> 0 | Some v \<Rightarrow> v)
                          + sum_list (map (\<lambda>b. the (map_of (h1 ! b) k)) rest))
               else None)"
    by blast
  have sums: "sum_list (map (\<lambda>b. the (map_of (h1 ! b) k)) rest)
      = sum_list (map (\<lambda>b. the (map_of (h ! b) k)) rest)" for k
  proof -
    have "map (\<lambda>b. the (map_of (h1 ! b) k)) rest = map (\<lambda>b. the (map_of (h ! b) k)) rest"
      using rest fr1 by (intro map_cong refl) auto
    then show ?thesis by (rule arg_cong)
  qed
  have "\<forall>k. map_of (h' ! s) k =
            (if a # rest = [] then map_of (h ! s) k
             else if k \<in> K
               then Some ((case map_of (h ! s) k of None \<Rightarrow> 0 | Some v \<Rightarrow> v)
                          + sum_list (map (\<lambda>b. the (map_of (h ! b) k)) (a # rest)))
               else None)"
  proof
    fix k
    show "map_of (h' ! s) k =
            (if a # rest = [] then map_of (h ! s) k
             else if k \<in> K
               then Some ((case map_of (h ! s) k of None \<Rightarrow> 0 | Some v \<Rightarrow> v)
                          + sum_list (map (\<lambda>b. the (map_of (h ! b) k)) (a # rest)))
               else None)"
      using m' [rule_format, of k] m1 [rule_format, of k] sums [of k]
      by (simp add: algebra_simps)
  qed
  moreover have "sum_loop s (a # rest) h = Inr h'" using run r' by simp
  moreover have "length h' = length h" using len' len1 by simp
  moreover have "\<forall>b. b \<noteq> s \<longrightarrow> h' ! b = h ! b" using fr' fr1 by simp
  ultimately show ?case using d' by blast
qed

lemmas average_eval = average_dic_def py_truediv_def

lemma average_dic_ok:
  assumes ne: "dic_list \<noteq> []"
      and wf: "\<forall>a\<in>set dic_list. a < length h \<and> distinct (map fst (h ! a)) \<and> keys (h ! a) = K"
  shows "\<exists>h'. average_dic h dic_list = Inr (length h, h')
           \<and> length h' = Suc (length h) \<and> take (length h) h' = h
           \<and> keys (h' ! length h) = K
           \<and> (\<forall>k\<in>K. map_of (h' ! length h) k
                = Some (sum_list (map (\<lambda>a. the (map_of (h ! a) k)) dic_list)
                        / real (length dic_list)))"
proof -
  define s where "s = length h"
  define h1 where "h1 = h @ [[]]"
  define n where "n = real (length dic_list)"
  from ne have n0: "n \<noteq> 0" by (simp add: n_def)
  have s1: "s < length h1" and at1: "h1 ! s = []" and old1: "\<forall>a<s. h1 ! a = h ! a"
    by (simp_all add: s_def h1_def nth_append)
  have wf1: "\<forall>a\<in>set dic_list. a < s \<and> distinct (map fst (h1 ! a)) \<and> keys (h1 ! a) = K"
    using wf old1 by (simp add: s_def)
  from sum_loop_ok [OF wf1 s1, of ] at1 obtain h2 where
    r2: "sum_loop s dic_list h1 = Inr h2" and len2: "length h2 = length h1"
    and fr2: "\<forall>a. a \<noteq> s \<longrightarrow> h2 ! a = h1 ! a"
    and d2: "distinct (map fst (h2 ! s))"
    and m2: "\<forall>k. map_of (h2 ! s) k =
            (if dic_list = [] then map_of (h1 ! s) k
             else if k \<in> K
               then Some ((case map_of (h1 ! s) k of None \<Rightarrow> 0 | Some v \<Rightarrow> v)
                          + sum_list (map (\<lambda>a. the (map_of (h1 ! a) k)) dic_list))
               else None)"
    by auto
  have vals: "sum_list (map (\<lambda>a. the (map_of (h1 ! a) k)) dic_list)
      = sum_list (map (\<lambda>a. the (map_of (h ! a) k)) dic_list)" for k
  proof -
    have "map (\<lambda>a. the (map_of (h1 ! a) k)) dic_list = map (\<lambda>a. the (map_of (h ! a) k)) dic_list"
      using wf1 old1 by (intro map_cong refl) auto
    then show ?thesis by (rule arg_cong)
  qed
  have m2': "\<forall>k. map_of (h2 ! s) k =
      (if k \<in> K then Some (sum_list (map (\<lambda>a. the (map_of (h ! a) k)) dic_list)) else None)"
    using m2 ne at1 vals by simp
  then have k2: "keys (h2 ! s) = K" by (auto simp: keys_dom dom_def)
  have s2: "s < length h2" using s1 len2 by simp
  have sub: "set (map fst (h2 ! s)) \<subseteq> keys (h2 ! s)" by (simp add: keys_def)
  from divide_items_ok [OF s2 n0 d2 sub] obtain h3 where
    r3: "divide_items s n (map fst (h2 ! s)) h2 = Inr h3" and len3: "length h3 = length h2"
    and fr3: "\<forall>a. a \<noteq> s \<longrightarrow> h3 ! a = h2 ! a"
    and k3: "keys (h3 ! s) = keys (h2 ! s)"
    and m3: "\<forall>k. map_of (h3 ! s) k =
            (if k \<in> set (map fst (h2 ! s)) then Some (the (map_of (h2 ! s) k) / n)
             else map_of (h2 ! s) k)"
    by blast
  have res: "average_dic h dic_list = Inr (length h, h3)"
    using ne r2 r3 by (simp add: average_dic_def s_def [symmetric] h1_def [symmetric]
        n_def [symmetric])
  have len: "length h3 = Suc (length h)" using len3 len2 by (simp add: h1_def)
  have "take (length h) h3 = h"
  proof (rule nth_equalityI)
    show "length (take (length h) h3) = length h" using len by simp
  next
    fix a assume "a < length (take (length h) h3)"
    then have "a < s" using len by (simp add: s_def)
    then have "h3 ! a = h ! a" using fr3 fr2 old1 by simp
    with \<open>a < s\<close> show "take (length h) h3 ! a = h ! a" by (simp add: s_def)
  qed
  moreover have "keys (h3 ! length h) = K" using k3 k2 by (simp add: s_def)
  moreover have "\<forall>k\<in>K. map_of (h3 ! length h) k
                = Some (sum_list (map (\<lambda>a. the (map_of (h ! a) k)) dic_list)
                        / real (length dic_list))"
  proof
    fix k assume "k \<in> K"
    with k2 have "k \<in> set (map fst (h2 ! s))" by (simp add: keys_def)
    with m3 [rule_format, of k] m2' [rule_format, of k] \<open>k \<in> K\<close>
    show "map_of (h3 ! length h) k
                = Some (sum_list (map (\<lambda>a. the (map_of (h ! a) k)) dic_list)
                        / real (length dic_list))"
      by (simp add: s_def n_def)
  qed
  ultimately show ?thesis using res len by blast
qed

lemma sum_loop_raises:
  "\<forall>a\<in>set ds. a < s \<and> distinct (map fst (h ! a)) \<Longrightarrow> s < length h \<Longrightarrow>
   distinct (map fst (h ! s)) \<Longrightarrow> h ! s \<noteq> [] \<Longrightarrow>
   \<exists>a\<in>set ds. keys (h ! a) \<noteq> keys (h ! s) \<Longrightarrow>
   sum_loop s ds h = Inl AssertionError"
proof (induction ds arbitrary: h)
  case Nil
  then show ?case by simp
next
  case (Cons a rest)
  from Cons.prems(4) have nz: "length (h ! s) \<noteq> 0" by simp
  show ?case
  proof (cases "keys (h ! a) = keys (h ! s)")
    case False
    then have "set (map fst (h ! s)) \<noteq> set (map fst (h ! a))" by (auto simp: keys_def)
    with nz show ?thesis by simp
  next
    case True
    then have same: "set (map fst (h ! s)) = set (map fst (h ! a))" by (simp add: keys_def)
    from Cons.prems(1) have da: "distinct (map fst (h ! a))" and as: "a < s" by simp_all
    from True have sub: "keys (h ! a) \<subseteq> keys (h ! s)" by simp
    from add_items_ok [OF Cons.prems(2) da Cons.prems(3) sub] obtain h1 where
      r: "add_items s (h ! a) h = Inr h1" and len: "length h1 = length h"
      and fr: "\<forall>b. b \<noteq> s \<longrightarrow> h1 ! b = h ! b"
      and d1: "distinct (map fst (h1 ! s))" and k1: "keys (h1 ! s) = keys (h ! s)"
      by blast
    have run: "sum_loop s (a # rest) h = sum_loop s rest h1" using nz same r by simp
    have wf1: "\<forall>b\<in>set rest. b < s \<and> distinct (map fst (h1 ! b))"
      using Cons.prems(1) fr by auto
    have s1: "s < length h1" using Cons.prems(2) len by simp
    have ne1: "h1 ! s \<noteq> []" using k1 Cons.prems(4) by (metis keys_empty)
    from Cons.prems(5) True have "\<exists>b\<in>set rest. keys (h ! b) \<noteq> keys (h ! s)" by auto
    then obtain b where b: "b \<in> set rest" "keys (h ! b) \<noteq> keys (h ! s)" by blast
    with Cons.prems(1) fr have "h1 ! b = h ! b" by auto
    with b(2) k1 have "keys (h1 ! b) \<noteq> keys (h1 ! s)" by simp
    with b(1) have "\<exists>b\<in>set rest. keys (h1 ! b) \<noteq> keys (h1 ! s)" by blast
    from Cons.IH [OF wf1 s1 d1 ne1 this] run show ?thesis by simp
  qed
qed

lemma average_dic_raises_iff:
  assumes wf: "\<forall>b\<in>set (a # rest). b < length h \<and> distinct (map fst (h ! b))"
      and first: "h ! a \<noteq> []"
  shows "average_dic h (a # rest) = Inl AssertionError
           \<longleftrightarrow> (\<exists>b\<in>set rest. keys (h ! b) \<noteq> keys (h ! a))"
proof (cases "\<exists>b\<in>set rest. keys (h ! b) \<noteq> keys (h ! a)")
  case False
  then have "\<forall>b\<in>set (a # rest). b < length h \<and> distinct (map fst (h ! b))
      \<and> keys (h ! b) = keys (h ! a)"
    using wf by auto
  from average_dic_ok [OF _ this] have "average_dic h (a # rest) \<noteq> Inl AssertionError"
    by auto
  with False show ?thesis by simp
next
  case True
  define s where "s = length h"
  define h0 where "h0 = h @ [[]]"
  define h1 where "h1 = store_items s (h0 ! a) h0"
  from wf have a: "a < s" "distinct (map fst (h ! a))" by (simp_all add: s_def)
  have s0: "s < length h0" and at0: "h0 ! s = []" and old0: "\<forall>b<s. h0 ! b = h ! b"
    by (simp_all add: s_def h0_def nth_append)
  have run: "sum_loop s (a # rest) h0 = sum_loop s rest h1"
    using at0 by (simp add: h1_def)
  from a old0 have da: "distinct (map fst (h0 ! a))" by simp
  from store_items_at [OF s0 da] at0
  have d1: "distinct (map fst (h1 ! s))" and m1: "map_of (h1 ! s) = map_of (h0 ! a)"
    by (simp_all add: h1_def)
  from store_items_frame [of s "h0 ! a" h0]
  have len1: "length h1 = length h0" and fr1: "\<forall>b. b \<noteq> s \<longrightarrow> h1 ! b = h0 ! b"
    by (simp_all add: h1_def)
  have k1: "keys (h1 ! s) = keys (h ! a)" using m1 a old0 by (simp add: keys_dom)
  with first have ne1: "h1 ! s \<noteq> []" by (metis keys_empty)
  have same: "\<forall>b\<in>set rest. h1 ! b = h ! b" using wf fr1 old0 by (auto simp: s_def)
  have wf1: "\<forall>b\<in>set rest. b < s \<and> distinct (map fst (h1 ! b))"
    using wf same by (simp add: s_def)
  have s1: "s < length h1" using s0 len1 by simp
  from True obtain b where b: "b \<in> set rest" "keys (h ! b) \<noteq> keys (h ! a)" by blast
  with same k1 have "keys (h1 ! b) \<noteq> keys (h1 ! s)" by simp
  with b(1) have "\<exists>b\<in>set rest. keys (h1 ! b) \<noteq> keys (h1 ! s)" by blast
  from sum_loop_raises [OF wf1 s1 d1 ne1 this] run
  have "sum_loop s (a # rest) h0 = Inl AssertionError" by simp
  then have "average_dic h (a # rest) = Inl AssertionError"
    by (simp add: average_dic_def s_def [symmetric] h0_def [symmetric])
  with True show ?thesis by simp
qed

lemma average_dic_empty: "average_dic h [] = Inr (length h, h @ [[]])"
  by (simp add: average_dic_def)

text \<open>
  C6: the call on an empty list returns a fresh \<^verbatim>\<open>{}\<close> (\<open>average_dic_empty\<close>), and when
  the first dictionary is not empty the assertion fails exactly when a later key set
  differs from the first (\<open>average_dic_raises_iff\<close>). When the first dictionary is
  empty, \<^verbatim>\<open>len(dic_sum) == 0\<close> still holds at the second round, which then copies the
  second dictionary and asserts nothing: on \<^verbatim>\<open>[{}, {"a": 1}]\<close> the key sets differ and
  the call returns \<^verbatim>\<open>{"a": 0.5}\<close> without an assertion failure.
\<close>

theorem average_dic_leading_empty:
  "keys ([[], [(''a'', 1)]] ! 1) \<noteq> keys ([[], [(''a'', 1)]] ! 0)
   \<and> average_dic [[], [(''a'', 1)]] [0, 1] = Inr (2, [[], [(''a'', 1)], [(''a'', 1 / 2)]])"
  by (simp add: average_eval keys_def)

text \<open>The same facts for the loops in double precision.\<close>

lemma store_items_double_frame:
  "length (store_items_double s kvs h) = length h
   \<and> (\<forall>a. a \<noteq> s \<longrightarrow> store_items_double s kvs h ! a = h ! a)"
  by (induction s kvs h rule: store_items_double.induct) simp_all

lemma store_items_double_at:
  "s < length h \<Longrightarrow> distinct (map fst kvs) \<Longrightarrow> distinct (map fst (h ! s)) \<Longrightarrow>
     distinct (map fst (store_items_double s kvs h ! s))
     \<and> map_of (store_items_double s kvs h ! s) = map_of (h ! s) ++ map_of kvs"
proof (induction s kvs h rule: store_items_double.induct)
  case (1 s h)
  then show ?case by simp
next
  case (2 s key val kvs h)
  let ?h1 = "h[s := AList.update key val (h ! s)]"
  from "2.prems" have s1: "s < length ?h1" and d1: "distinct (map fst kvs)"
    and d2: "distinct (map fst (?h1 ! s))" and fresh: "key \<notin> fst ` set kvs"
    by (simp_all add: distinct_update)
  from "2.IH" [OF s1 d1 d2]
  have dist: "distinct (map fst (store_items_double s kvs ?h1 ! s))"
    and m: "map_of (store_items_double s kvs ?h1 ! s) = map_of (?h1 ! s) ++ map_of kvs"
    by simp_all
  from fresh have none: "map_of kvs key = None" by (simp add: map_of_eq_None_iff)
  have mh1: "map_of (?h1 ! s) = (map_of (h ! s))(key \<mapsto> val)"
    using "2.prems"(1) by (simp add: update_conv')
  have e: "map_of (?h1 ! s) ++ map_of kvs = map_of (h ! s) ++ map_of ((key, val) # kvs)"
  proof
    fix k
    show "(map_of (?h1 ! s) ++ map_of kvs) k = (map_of (h ! s) ++ map_of ((key, val) # kvs)) k"
      unfolding mh1 using none
      by (cases "k = key") (simp_all add: map_add_def split: option.splits)
  qed
  have "map_of (store_items_double s kvs ?h1 ! s) = map_of (h ! s) ++ map_of ((key, val) # kvs)"
    using m e by (rule trans)
  with dist show ?case unfolding store_items_double.simps by (intro conjI)
qed

lemma add_items_double_ok:
  "s < length h \<Longrightarrow> distinct (map fst kvs) \<Longrightarrow> distinct (map fst (h ! s)) \<Longrightarrow>
   fst ` set kvs \<subseteq> fst ` set (h ! s) \<Longrightarrow>
   \<exists>h'. add_items_double s kvs h = Inr h' \<and> length h' = length h
      \<and> (\<forall>a. a \<noteq> s \<longrightarrow> h' ! a = h ! a)
      \<and> distinct (map fst (h' ! s)) \<and> fst ` set (h' ! s) = fst ` set (h ! s)
      \<and> (\<forall>k. map_of (h' ! s) k =
            (case map_of kvs k of
               None \<Rightarrow> map_of (h ! s) k
             | Some v \<Rightarrow> Some (fadd (the (map_of (h ! s) k)) v)))"
proof (induction s kvs h rule: add_items_double.induct)
  case (1 s h)
  then show ?case by simp
next
  case (2 s key val kvs h)
  from "2.prems"(4) have kin: "key \<in> fst ` set (h ! s)" by simp
  then obtain old where old: "map_of (h ! s) key = Some old"
    by (metis map_of_eq_None_iff not_Some_eq)
  let ?h1 = "h[s := AList.update key (fadd old val) (h ! s)]"
  have at1: "?h1 ! s = AList.update key (fadd old val) (h ! s)" using "2.prems"(1) by simp
  have k1: "fst ` set (?h1 ! s) = fst ` set (h ! s)"
    using kin by (auto simp: at1 dom_update)
  from "2.prems" have s1: "s < length ?h1" and d1: "distinct (map fst kvs)"
    and fresh: "key \<notin> fst ` set kvs" by simp_all
  have d2: "distinct (map fst (?h1 ! s))"
    using "2.prems"(3) by (simp add: at1 distinct_update)
  have "fst ` set kvs \<subseteq> fst ` set (h ! s)" using "2.prems"(4) by auto
  then have sub: "fst ` set kvs \<subseteq> fst ` set (?h1 ! s)" by (simp only: k1)
  from "2.IH" [OF old s1 d1 d2 sub] obtain h' where
    r: "add_items_double s kvs ?h1 = Inr h'" and len: "length h' = length ?h1"
    and fr: "\<forall>a. a \<noteq> s \<longrightarrow> h' ! a = ?h1 ! a"
    and dist: "distinct (map fst (h' ! s))" and ks: "fst ` set (h' ! s) = fst ` set (?h1 ! s)"
    and m: "\<forall>k. map_of (h' ! s) k =
            (case map_of kvs k of
               None \<Rightarrow> map_of (?h1 ! s) k
             | Some v \<Rightarrow> Some (fadd (the (map_of (?h1 ! s) k)) v))"
    by blast
  from fresh have none: "map_of kvs key = None" by (simp add: map_of_eq_None_iff)
  have mh1: "map_of (?h1 ! s) = (map_of (h ! s))(key \<mapsto> fadd old val)"
    by (simp add: at1 update_conv')
  note m = m [unfolded mh1]
  have m': "\<forall>k. map_of (h' ! s) k =
            (case map_of ((key, val) # kvs) k of
               None \<Rightarrow> map_of (h ! s) k
             | Some v \<Rightarrow> Some (fadd (the (map_of (h ! s) k)) v))"
  proof
    fix k
    show "map_of (h' ! s) k =
            (case map_of ((key, val) # kvs) k of
               None \<Rightarrow> map_of (h ! s) k
             | Some v \<Rightarrow> Some (fadd (the (map_of (h ! s) k)) v))"
    proof (cases "k = key")
      case True
      with m [rule_format, of k] none old show ?thesis by simp
    next
      case False
      with m [rule_format, of k] show ?thesis by (simp split: option.splits)
    qed
  qed
  have "add_items_double s ((key, val) # kvs) h = Inr h'" using old r by simp
  moreover have "length h' = length h" using len by simp
  moreover have "\<forall>a. a \<noteq> s \<longrightarrow> h' ! a = h ! a" using fr by simp
  moreover have "fst ` set (h' ! s) = fst ` set (h ! s)" using ks k1 by simp
  ultimately show ?case using dist m' by blast
qed

lemma divide_items_double_ok:
  "s < length h \<Longrightarrow> 0 < n \<Longrightarrow> n < 2 ^ 53 \<Longrightarrow> distinct ks \<Longrightarrow> set ks \<subseteq> fst ` set (h ! s) \<Longrightarrow>
   \<exists>h'. divide_items_double s n ks h = Inr h' \<and> length h' = length h
      \<and> (\<forall>a. a \<noteq> s \<longrightarrow> h' ! a = h ! a)
      \<and> fst ` set (h' ! s) = fst ` set (h ! s)
      \<and> (\<forall>k. (k \<in> set ks \<longrightarrow>
                 (\<exists>q. py_truediv_len (the (map_of (h ! s) k)) n = Inr q
                       \<and> map_of (h' ! s) k = Some q))
             \<and> (k \<notin> set ks \<longrightarrow> map_of (h' ! s) k = map_of (h ! s) k))"
proof (induction s n ks h rule: divide_items_double.induct)
  case (1 s n h)
  then show ?case by simp
next
  case (2 s n key ks h)
  from "2.prems"(5) have kin: "key \<in> fst ` set (h ! s)" by simp
  then obtain v where v: "map_of (h ! s) key = Some v"
    by (metis map_of_eq_None_iff not_Some_eq)
  from py_truediv_len_ok [OF "2.prems"(2,3)] obtain q where q: "py_truediv_len v n = Inr q"
    by blast
  let ?h1 = "h[s := AList.update key q (h ! s)]"
  have at1: "?h1 ! s = AList.update key q (h ! s)" using "2.prems"(1) by simp
  have k1: "fst ` set (?h1 ! s) = fst ` set (h ! s)" using kin by (auto simp: at1 dom_update)
  from "2.prems" have s1: "s < length ?h1" and d1: "distinct ks" and fresh: "key \<notin> set ks"
    by simp_all
  have "set ks \<subseteq> fst ` set (h ! s)" using "2.prems"(5) by auto
  then have sub: "set ks \<subseteq> fst ` set (?h1 ! s)" by (simp only: k1)
  from "2.IH" [OF v q s1 "2.prems"(2,3) d1 sub] obtain h' where
    r: "divide_items_double s n ks ?h1 = Inr h'" and len: "length h' = length ?h1"
    and fr: "\<forall>a. a \<noteq> s \<longrightarrow> h' ! a = ?h1 ! a"
    and ks: "fst ` set (h' ! s) = fst ` set (?h1 ! s)"
    and m: "\<forall>k. (k \<in> set ks \<longrightarrow>
                 (\<exists>q. py_truediv_len (the (map_of (?h1 ! s) k)) n = Inr q
                       \<and> map_of (h' ! s) k = Some q))
             \<and> (k \<notin> set ks \<longrightarrow> map_of (h' ! s) k = map_of (?h1 ! s) k)"
    by blast
  have mh1: "map_of (?h1 ! s) = (map_of (h ! s))(key \<mapsto> q)"
    by (simp add: at1 update_conv')
  note m = m [unfolded mh1]
  have m': "\<forall>k. (k \<in> set (key # ks) \<longrightarrow>
                 (\<exists>q. py_truediv_len (the (map_of (h ! s) k)) n = Inr q
                       \<and> map_of (h' ! s) k = Some q))
             \<and> (k \<notin> set (key # ks) \<longrightarrow> map_of (h' ! s) k = map_of (h ! s) k)"
  proof
    fix k
    show "(k \<in> set (key # ks) \<longrightarrow>
                 (\<exists>q. py_truediv_len (the (map_of (h ! s) k)) n = Inr q
                       \<and> map_of (h' ! s) k = Some q))
             \<and> (k \<notin> set (key # ks) \<longrightarrow> map_of (h' ! s) k = map_of (h ! s) k)"
    proof (cases "k = key")
      case True
      with m [rule_format, of k] fresh v q show ?thesis by simp
    next
      case False
      with m [rule_format, of k] show ?thesis by simp
    qed
  qed
  have "divide_items_double s n (key # ks) h = Inr h'" using v q r by simp
  moreover have "length h' = length h" using len by simp
  moreover have "\<forall>a. a \<noteq> s \<longrightarrow> h' ! a = h ! a" using fr by simp
  moreover have "fst ` set (h' ! s) = fst ` set (h ! s)" using ks k1 by simp
  ultimately show ?case using m' by blast
qed

lemma sum_loop_double_empty:
  "\<forall>a\<in>set ds. h ! a = [] \<Longrightarrow> h ! s = [] \<Longrightarrow> sum_loop_double s ds h = Inr h"
  by (induction ds) simp_all

lemma sum_loop_double_ok:
  "\<forall>a\<in>set ds. a < s \<and> distinct (map fst (h ! a)) \<and> set (map fst (h ! a)) = K \<Longrightarrow>
   s < length h \<Longrightarrow> distinct (map fst (h ! s)) \<Longrightarrow> h ! s \<noteq> [] \<Longrightarrow> set (map fst (h ! s)) = K \<Longrightarrow>
   \<exists>h'. sum_loop_double s ds h = Inr h' \<and> length h' = length h
      \<and> (\<forall>a. a \<noteq> s \<longrightarrow> h' ! a = h ! a)
      \<and> distinct (map fst (h' ! s)) \<and> set (map fst (h' ! s)) = K
      \<and> (\<forall>k\<in>K. map_of (h' ! s) k
            = Some (foldl fadd (the (map_of (h ! s) k)) (map (\<lambda>a. the (map_of (h ! a) k)) ds)))"
proof (induction ds arbitrary: h)
  case Nil
  have "\<forall>k\<in>K. map_of (h ! s) k = Some (the (map_of (h ! s) k))"
  proof
    fix k assume "k \<in> K"
    with Nil.prems(5) have "map_of (h ! s) k \<noteq> None" by (simp add: map_of_eq_None_iff)
    then show "map_of (h ! s) k = Some (the (map_of (h ! s) k))" by simp
  qed
  with Nil show ?case by simp
next
  case (Cons a rest)
  from Cons.prems(1) have a: "a < s" "distinct (map fst (h ! a))" "set (map fst (h ! a)) = K"
    and rest: "\<forall>b\<in>set rest. b < s \<and> distinct (map fst (h ! b)) \<and> set (map fst (h ! b)) = K"
    by simp_all
  from Cons.prems(4) have nz: "length (h ! s) \<noteq> 0" by simp
  have same: "set (map fst (h ! s)) = set (map fst (h ! a))"
    using Cons.prems(5) a(3) by simp
  have sub: "fst ` set (h ! a) \<subseteq> fst ` set (h ! s)" using same by simp
  from add_items_double_ok [OF Cons.prems(2) a(2) Cons.prems(3) sub] obtain h1 where
    r: "add_items_double s (h ! a) h = Inr h1" and len1: "length h1 = length h"
    and fr1: "\<forall>b. b \<noteq> s \<longrightarrow> h1 ! b = h ! b"
    and d1: "distinct (map fst (h1 ! s))"
    and k1: "fst ` set (h1 ! s) = fst ` set (h ! s)"
    and m1: "\<forall>k. map_of (h1 ! s) k =
            (case map_of (h ! a) k of
               None \<Rightarrow> map_of (h ! s) k
             | Some v \<Rightarrow> Some (fadd (the (map_of (h ! s) k)) v))"
    by blast
  have run: "sum_loop_double s (a # rest) h = sum_loop_double s rest h1"
    using nz same r by simp
  have K1: "set (map fst (h1 ! s)) = K" using k1 Cons.prems(5) by simp
  have ne1: "h1 ! s \<noteq> []"
  proof
    assume "h1 ! s = []"
    with k1 have "fst ` set (h ! s) = {}" by simp
    with Cons.prems(4) show False by simp
  qed
  have rest1: "\<forall>b\<in>set rest. b < s \<and> distinct (map fst (h1 ! b)) \<and> set (map fst (h1 ! b)) = K"
  proof
    fix b assume b: "b \<in> set rest"
    with rest have "b < s" by simp
    with fr1 have "h1 ! b = h ! b" by simp
    with rest b show "b < s \<and> distinct (map fst (h1 ! b)) \<and> set (map fst (h1 ! b)) = K"
      by simp
  qed
  have s1: "s < length h1" using Cons.prems(2) len1 by simp
  from Cons.IH [OF rest1 s1 d1 ne1 K1] obtain h' where
    r': "sum_loop_double s rest h1 = Inr h'" and len': "length h' = length h1"
    and fr': "\<forall>b. b \<noteq> s \<longrightarrow> h' ! b = h1 ! b"
    and d': "distinct (map fst (h' ! s))" and K': "set (map fst (h' ! s)) = K"
    and m': "\<forall>k\<in>K. map_of (h' ! s) k
            = Some (foldl fadd (the (map_of (h1 ! s) k)) (map (\<lambda>b. the (map_of (h1 ! b) k)) rest))"
    by blast
  have vals: "map (\<lambda>b. the (map_of (h1 ! b) k)) rest = map (\<lambda>b. the (map_of (h ! b) k)) rest" for k
    using rest fr1 by (intro map_cong refl) auto
  have "\<forall>k\<in>K. map_of (h' ! s) k
            = Some (foldl fadd (the (map_of (h ! s) k))
                      (map (\<lambda>b. the (map_of (h ! b) k)) (a # rest)))"
  proof
    fix k assume kK: "k \<in> K"
    with a(3) have "map_of (h ! a) k \<noteq> None" by (simp add: map_of_eq_None_iff)
    then obtain v where v: "map_of (h ! a) k = Some v" by auto
    with m1 [rule_format, of k]
    have "the (map_of (h1 ! s) k) = fadd (the (map_of (h ! s) k)) v" by simp
    with m' [rule_format, OF kK] v vals [of k]
    show "map_of (h' ! s) k
            = Some (foldl fadd (the (map_of (h ! s) k))
                      (map (\<lambda>b. the (map_of (h ! b) k)) (a # rest)))"
      by simp
  qed
  moreover have "sum_loop_double s (a # rest) h = Inr h'" using run r' by simp
  moreover have "length h' = length h" using len' len1 by simp
  moreover have "\<forall>b. b \<noteq> s \<longrightarrow> h' ! b = h ! b" using fr' fr1 by simp
  ultimately show ?case using d' K' by blast
qed

lemma average_dic_double_ok:
  assumes ne: "dic_list \<noteq> []" and small: "length dic_list < 2 ^ 53"
      and wf: "\<forall>a\<in>set dic_list. a < length h \<and> distinct (map fst (h ! a))
                 \<and> set (map fst (h ! a)) = K"
  shows "\<exists>h'. average_dic_double h dic_list = Inr (length h, h')
           \<and> length h' = Suc (length h) \<and> take (length h) h' = h
           \<and> set (map fst (h' ! length h)) = K
           \<and> (\<forall>k\<in>K. \<exists>q. mean_double (map (\<lambda>a. the (map_of (h ! a) k)) dic_list) = Inr q
                          \<and> map_of (h' ! length h) k = Some q)"
proof -
  define s where "s = length h"
  define h1 where "h1 = h @ [[]]"
  define n where "n = length dic_list"
  from ne have n0: "0 < n" by (simp add: n_def)
  from small have n53: "n < 2 ^ 53" by (simp add: n_def)
  from ne obtain a rest where ds: "dic_list = a # rest" by (cases dic_list) auto
  have s1: "s < length h1" and at1: "h1 ! s = []" and old1: "\<forall>b<s. h1 ! b = h ! b"
    and len1: "length h1 = Suc s"
    by (simp_all add: s_def h1_def nth_append)
  have wf1: "\<forall>b\<in>set dic_list. b < s \<and> distinct (map fst (h1 ! b)) \<and> set (map fst (h1 ! b)) = K"
    using wf old1 by (simp add: s_def)
  have unf: "average_dic_double h dic_list =
      (case sum_loop_double s dic_list h1 of
          Inl e \<Rightarrow> Inl e
        | Inr h2 \<Rightarrow>
            (case divide_items_double s n (map fst (h2 ! s)) h2 of
               Inl e \<Rightarrow> Inl e
             | Inr h3 \<Rightarrow> Inr (s, h3)))"
    using ne unfolding average_dic_double_def s_def h1_def n_def Let_def by simp
  have final: "\<exists>h'. average_dic_double h dic_list = Inr (s, h')
           \<and> length h' = Suc s \<and> (\<forall>b<s. h' ! b = h ! b)
           \<and> set (map fst (h' ! s)) = K
           \<and> (\<forall>k\<in>K. \<exists>q. mean_double (map (\<lambda>a. the (map_of (h ! a) k)) dic_list) = Inr q
                          \<and> map_of (h' ! s) k = Some q)"
  proof (cases "h ! a = []")
    case True
    with wf ds have K0: "K = {}" by auto
    have "\<forall>b\<in>set dic_list. h1 ! b = []"
    proof
      fix b assume "b \<in> set dic_list"
      with wf1 K0 show "h1 ! b = []" by simp
    qed
    from sum_loop_double_empty [OF this at1]
    have "average_dic_double h dic_list = Inr (s, h1)" by (simp add: unf at1)
    with len1 old1 at1 K0 show ?thesis by simp
  next
    case False
    from wf1 ds have a: "a < s" "distinct (map fst (h1 ! a))" "set (map fst (h1 ! a)) = K"
      and rest: "\<forall>b\<in>set rest. b < s \<and> distinct (map fst (h1 ! b)) \<and> set (map fst (h1 ! b)) = K"
      by simp_all
    from a(1) old1 have ha: "h1 ! a = h ! a" by simp
    define h2 where "h2 = store_items_double s (h1 ! a) h1"
    have run: "sum_loop_double s dic_list h1 = sum_loop_double s rest h2"
      by (simp add: ds at1 h2_def)
    from store_items_double_at [OF s1 a(2)] at1
    have d2: "distinct (map fst (h2 ! s))" and m2: "map_of (h2 ! s) = map_of (h1 ! a)"
      by (simp_all add: h2_def)
    from store_items_double_frame [of s "h1 ! a" h1]
    have len2: "length h2 = length h1" and fr2: "\<forall>b. b \<noteq> s \<longrightarrow> h2 ! b = h1 ! b"
      by (simp_all add: h2_def)
    have "dom (map_of (h2 ! s)) = dom (map_of (h1 ! a))" by (simp only: m2)
    then have K2: "set (map fst (h2 ! s)) = K"
      using a(3) by (simp add: dom_map_of_conv_image_fst)
    have ne2: "h2 ! s \<noteq> []"
    proof
      assume "h2 ! s = []"
      with K2 a(3) have "set (map fst (h1 ! a)) = {}" by simp
      with False ha show False by simp
    qed
    have s2: "s < length h2" using s1 len2 by simp
    have rest2: "\<forall>b\<in>set rest. b < s \<and> distinct (map fst (h2 ! b)) \<and> set (map fst (h2 ! b)) = K"
    proof
      fix b assume b: "b \<in> set rest"
      with rest have "b < s" by simp
      with fr2 have "h2 ! b = h1 ! b" by simp
      with rest b show "b < s \<and> distinct (map fst (h2 ! b)) \<and> set (map fst (h2 ! b)) = K"
        by simp
    qed
    from sum_loop_double_ok [OF rest2 s2 d2 ne2 K2] obtain h3 where
      r3: "sum_loop_double s rest h2 = Inr h3" and len3: "length h3 = length h2"
      and fr3: "\<forall>b. b \<noteq> s \<longrightarrow> h3 ! b = h2 ! b"
      and d3: "distinct (map fst (h3 ! s))" and K3: "set (map fst (h3 ! s)) = K"
      and m3: "\<forall>k\<in>K. map_of (h3 ! s) k
            = Some (foldl fadd (the (map_of (h2 ! s) k)) (map (\<lambda>b. the (map_of (h2 ! b) k)) rest))"
      by blast
    have vals: "map (\<lambda>b. the (map_of (h2 ! b) k)) rest = map (\<lambda>b. the (map_of (h ! b) k)) rest" for k
    proof (intro map_cong refl)
      fix b assume b: "b \<in> set rest"
      with rest have "b < s" by simp
      with fr2 old1 show "the (map_of (h2 ! b) k) = the (map_of (h ! b) k)" by simp
    qed
    have m3': "\<forall>k\<in>K. map_of (h3 ! s) k
            = Some (foldl fadd (the (map_of (h ! a) k)) (map (\<lambda>b. the (map_of (h ! b) k)) rest))"
      using m3 vals by (simp add: m2 ha)
    have s3: "s < length h3" using s2 len3 by simp
    have sub: "set (map fst (h3 ! s)) \<subseteq> fst ` set (h3 ! s)" by simp
    from divide_items_double_ok [OF s3 n0 n53 d3 sub] obtain h4 where
      r4: "divide_items_double s n (map fst (h3 ! s)) h3 = Inr h4" and len4: "length h4 = length h3"
      and fr4: "\<forall>b. b \<noteq> s \<longrightarrow> h4 ! b = h3 ! b"
      and k4: "fst ` set (h4 ! s) = fst ` set (h3 ! s)"
      and m4: "\<forall>k. (k \<in> set (map fst (h3 ! s)) \<longrightarrow>
                 (\<exists>q. py_truediv_len (the (map_of (h3 ! s) k)) n = Inr q
                       \<and> map_of (h4 ! s) k = Some q))
             \<and> (k \<notin> set (map fst (h3 ! s)) \<longrightarrow> map_of (h4 ! s) k = map_of (h3 ! s) k)"
      by blast
    have res: "average_dic_double h dic_list = Inr (s, h4)"
      by (simp add: unf run r3 r4)
    have "length h4 = Suc s" using len4 len3 len2 len1 by simp
    moreover have "\<forall>b<s. h4 ! b = h ! b" using fr4 fr3 fr2 old1 by simp
    moreover have "set (map fst (h4 ! s)) = K" using k4 K3 by simp
    moreover have "\<forall>k\<in>K. \<exists>q. mean_double (map (\<lambda>a. the (map_of (h ! a) k)) dic_list) = Inr q
                          \<and> map_of (h4 ! s) k = Some q"
    proof
      fix k assume kK: "k \<in> K"
      with K3 have "k \<in> set (map fst (h3 ! s))" by simp
      with m4 obtain q where q: "py_truediv_len (the (map_of (h3 ! s) k)) n = Inr q"
        "map_of (h4 ! s) k = Some q" by blast
      have "mean_double (map (\<lambda>a. the (map_of (h ! a) k)) dic_list)
          = py_truediv_len (the (map_of (h3 ! s) k)) n"
        using m3' [rule_format, OF kK] by (simp add: mean_double_def ds n_def)
      with q show "\<exists>q. mean_double (map (\<lambda>a. the (map_of (h ! a) k)) dic_list) = Inr q
                          \<and> map_of (h4 ! s) k = Some q"
        by simp
    qed
    ultimately show ?thesis using res by blast
  qed
  then obtain h' where res: "average_dic_double h dic_list = Inr (s, h')"
    and len: "length h' = Suc s" and old: "\<forall>b<s. h' ! b = h ! b"
    and K': "set (map fst (h' ! s)) = K"
    and m: "\<forall>k\<in>K. \<exists>q. mean_double (map (\<lambda>a. the (map_of (h ! a) k)) dic_list) = Inr q
                          \<and> map_of (h' ! s) k = Some q"
    by blast
  have "take (length h) h' = h"
  proof (rule nth_equalityI)
    show "length (take (length h) h') = length h" using len by (simp add: s_def)
  next
    fix b assume "b < length (take (length h) h')"
    then have "b < s" using len by (simp add: s_def)
    with old show "take (length h) h' ! b = h ! b" by (simp add: s_def)
  qed
  with res len K' m show ?thesis unfolding s_def by blast
qed

text \<open>
  C10, as stated with the arithmetic mean, fails in double precision: on
  \<^verbatim>\<open>[{"a": 0.1}, {"a": 0.2}]\<close> the sum \<^verbatim>\<open>0.1 + 0.2\<close> is rounded, and the value
  returned under \<^verbatim>\<open>"a"\<close> is \<open>1351079888211149 / 2\<^sup>5\<^sup>3\<close>, which is not the sum of the two
  values divided by two.
\<close>

theorem average_dic_double_rounds:
  "average_dic_double
     [[(''a'', Finite (3602879701896397 / 2 ^ 55))], [(''a'', Finite (3602879701896397 / 2 ^ 54))]]
     [0, 1]
   = Inr (2, [[(''a'', Finite (3602879701896397 / 2 ^ 55))],
              [(''a'', Finite (3602879701896397 / 2 ^ 54))],
              [(''a'', Finite (1351079888211149 / 2 ^ 53))]])
   \<and> (1351079888211149 / 2 ^ 53 :: real)
       \<noteq> (3602879701896397 / 2 ^ 55 + 3602879701896397 / 2 ^ 54) / 2"
  by (simp add: average_dic_double_def py_truediv_len_def float_of_nat_def fdiv_def rnd_small)

text \<open>
  C10, amended: for a non-empty list of fewer than \<open>2\<^sup>5\<^sup>3\<close> (well-formed) dictionaries
  that all have the key set \<open>K\<close>, \<^verbatim>\<open>average_dic\<close> returns a new dictionary with the
  key set \<open>K\<close> in which every key maps to the mean of its values as double arithmetic
  computes it: the values added in list order, each addition rounded to the nearest
  double, and the sum divided by the length of the list, the quotient rounded. Every
  dictionary that existed before the call, the inputs among them, is unchanged.
\<close>

theorem average_dic_mean:
  assumes "dic_list \<noteq> []" and "length dic_list < 2 ^ 53"
      and "\<forall>a\<in>set dic_list. a < length h \<and> distinct (map fst (h ! a))
             \<and> set (map fst (h ! a)) = K"
  shows "\<exists>h'. average_dic_double h dic_list = Inr (length h, h')
           \<and> length h' = Suc (length h) \<and> take (length h) h' = h
           \<and> set (map fst (h' ! length h)) = K
           \<and> (\<forall>k\<in>K. \<exists>q. mean_double (map (\<lambda>a. the (map_of (h ! a) k)) dic_list) = Inr q
                          \<and> map_of (h' ! length h) k = Some q)"
  using assms by (rule average_dic_double_ok)

theorem average_dic_mean_witness:
  "\<exists>h'. average_dic_double
           [[(''acc'', Finite (1 / 2)), (''f1'', Finite 1)],
            [(''f1'', Finite 3), (''acc'', Finite (1 / 4))]] [0, 1] = Inr (2, h')
      \<and> take 2 h' = [[(''acc'', Finite (1 / 2)), (''f1'', Finite 1)],
                      [(''f1'', Finite 3), (''acc'', Finite (1 / 4))]]
      \<and> map_of (h' ! 2) ''acc'' = Some (Finite (3 / 8))
      \<and> map_of (h' ! 2) ''f1'' = Some (Finite 2)"
proof -
  let ?h = "[[(''acc'', Finite (1 / 2)), (''f1'', Finite 1)],
            [(''f1'', Finite 3), (''acc'', Finite (1 / 4))]]"
  have k: "\<forall>a\<in>set [0, 1 :: nat]. a < length ?h \<and> distinct (map fst (?h ! a))
      \<and> set (map fst (?h ! a)) = {''acc'', ''f1''}"
    by simp (rule insert_commute)
  have m1: "mean_double (map (\<lambda>a. the (map_of (?h ! a) ''acc'')) [0, 1]) = Inr (Finite (3 / 8))"
    by (simp add: mean_double_def py_truediv_len_def float_of_nat_def fdiv_def rnd_small)
  have m2: "mean_double (map (\<lambda>a. the (map_of (?h ! a) ''f1'')) [0, 1]) = Inr (Finite 2)"
    by (simp add: mean_double_def py_truediv_len_def float_of_nat_def fdiv_def rnd_small)
  from average_dic_mean [OF _ _ k] obtain h' where
    r: "average_dic_double ?h [0, 1] = Inr (length ?h, h')"
    and t: "take (length ?h) h' = ?h"
    and v: "\<forall>k\<in>{''acc'', ''f1''}. \<exists>q. mean_double (map (\<lambda>a. the (map_of (?h ! a) k)) [0, 1]) = Inr q
                          \<and> map_of (h' ! length ?h) k = Some q"
    by auto
  from v m1 have a: "map_of (h' ! length ?h) ''acc'' = Some (Finite (3 / 8))" by auto
  from v m2 have b: "map_of (h' ! length ?h) ''f1'' = Some (Finite 2)" by auto
  from r t a b show ?thesis by (intro exI [of _ h']) (simp add: numeral_2_eq_2)
qed

lemma average_dic_example:
  "average_dic [[(''acc'', 1), (''f1'', 2)], [(''f1'', 4), (''acc'', 3)]] [0, 1]
     = Inr (2, [[(''acc'', 1), (''f1'', 2)], [(''f1'', 4), (''acc'', 3)],
                [(''acc'', 2), (''f1'', 3)]])"
  by (simp add: average_eval doubleton_eq_iff)

text \<open>
  The call on \<^verbatim>\<open>[{}, {"a": 1.0}]\<close>, whose first dictionary is empty, returns the same
  in double precision.
\<close>

lemma average_dic_double_leading_empty:
  "average_dic_double [[], [(''a'', Finite 1)]] [0, 1]
     = Inr (2, [[], [(''a'', Finite 1)], [(''a'', Finite (1 / 2))]])"
  by (simp add: average_dic_double_def py_truediv_len_def float_of_nat_def fdiv_def rnd_small)

end
